theory Spec2Isabelle
  imports Complex_Main "HOL-Library.Multiset" "HOL-Library.Product_Lexorder"
    "HOL-Library.List_Lexorder" "HOL-Library.Char_ord"
begin

section \<open>The load tester: data model\<close>

text \<open>
  The model follows \<^verbatim>\<open>src/load_tester.py\<close>. Python floats are idealised as
  \<^typ>\<open>real\<close> (no rounding), Python ints are \<^typ>\<open>int\<close>, and a
  \<^verbatim>\<open>datetime\<close> is its number of microseconds on the time line, which is the
  resolution \<^verbatim>\<open>datetime.now()\<close> has. Formatting of numbers for printing
  (\<^verbatim>\<open>:.2f\<close> and the like) is not modelled: a printed line carries the values
  that are passed to \<^verbatim>\<open>print\<close>.
\<close>

datatype py_error = ZeroDivisionError | TypeError | ValueError | OverflowError

text \<open>
  A Python float that may be infinite or not a number. The interval comes from
  the command line through \<^verbatim>\<open>float\<close>, which accepts \<^verbatim>\<open>inf\<close> and
  \<^verbatim>\<open>nan\<close>; the other floats of the program are differences and quotients of
  finite readings and stay \<^typ>\<open>real\<close>.
\<close>

datatype py_float = Finite real | PosInf | NegInf | NaN

text \<open>
  The fields of \<^verbatim>\<open>LoadTester\<close>. The dict \<^verbatim>\<open>status_codes\<close> is an association
  list in insertion order with one entry per key, as a Python dict is.
\<close>

record tester =
  url :: string
  num_threads :: int
  num_requests :: int
  interval :: py_float
  response_times :: "real list"
  status_codes :: "(int \<times> nat) list"
  errors :: "string list"
  start_time :: "int option"
  end_time :: "int option"

text \<open>\<^verbatim>\<open>LoadTester.__init__\<close>.\<close>

definition LoadTester :: "string \<Rightarrow> int \<Rightarrow> int \<Rightarrow> py_float \<Rightarrow> tester" where
  "LoadTester u nt nr iv =
     \<lparr>url = u, num_threads = nt, num_requests = nr, interval = iv,
      response_times = [], status_codes = [], errors = [],
      start_time = None, end_time = None\<rparr>"

text \<open>
  The counting idiom that the source uses twice (lines 48 to 51 and 126 to 129):
  \<^verbatim>\<open>if k in d: d[k] += 1 else: d[k] = 1\<close>. A new key goes to the end.
\<close>

fun dict_incr :: "'k \<Rightarrow> ('k \<times> nat) list \<Rightarrow> ('k \<times> nat) list" where
  "dict_incr k [] = [(k, 1)]"
| "dict_incr k ((k', c) # d) =
     (if k = k' then (k', c + 1) # d else (k', c) # dict_incr k d)"

text \<open>
  The assignment \<^verbatim>\<open>d[k] = v\<close>: the entry of an existing key is overwritten in
  its place, a new key goes to the end.
\<close>

fun dict_set :: "'k \<Rightarrow> nat \<Rightarrow> ('k \<times> nat) list \<Rightarrow> ('k \<times> nat) list" where
  "dict_set k v [] = [(k, v)]"
| "dict_set k v ((k', c) # d) =
     (if k = k' then (k', v) # d else (k', c) # dict_set k v d)"

section \<open>One request\<close>

text \<open>
  What \<^verbatim>\<open>requests.get(self.url, timeout=10)\<close> does in one call: it returns a
  response, of which the code reads the status code, or it raises an exception,
  of which the code reads \<^verbatim>\<open>str(e)\<close>. The exceptions are those of class
  \<^verbatim>\<open>Exception\<close>, which is what the library raises on a timeout, a
  connection error or a DNS failure and what the handler of line 59 names. An
  attempt also has the two readings of \<^verbatim>\<open>time.time()\<close> around the call.
\<close>

datatype http_result = is_Response: Response (status_of: int) | Raised (message_of: string)

record attempt =
  t_send :: real
  t_recv :: real
  reply :: http_result

text \<open>The dict that \<^verbatim>\<open>send_request\<close> returns, by its \<^verbatim>\<open>success\<close> entry.\<close>

datatype outcome =
    Success nat int real
  | Failure nat string

fun is_success :: "outcome \<Rightarrow> bool" where
  "is_success (Success i c rt) = True"
| "is_success (Failure i m) = False"

text \<open>
  The body of the \<^verbatim>\<open>try\<close> block, lines 40 to 58. The only statement that can
  raise is the call of \<^verbatim>\<open>requests.get\<close>, which comes before every write to the
  tester; \<open>Inl\<close> is the exception leaving the block.
\<close>

definition send_request_try :: "attempt \<Rightarrow> nat \<Rightarrow> tester \<Rightarrow> string + (outcome \<times> tester)" where
  "send_request_try a request_id t =
     (case reply a of
        Raised e \<Rightarrow> Inl e
      | Response status_code \<Rightarrow>
          (let response_time = t_recv a - t_send a;
               t1 = t\<lparr>response_times := response_times t @ [response_time]\<rparr>;
               t2 = t1\<lparr>status_codes := dict_incr status_code (status_codes t1)\<rparr>
           in Inr (Success request_id status_code response_time, t2)))"

text \<open>
  \<^verbatim>\<open>send_request\<close>: the \<^verbatim>\<open>try\<close> block with its handler
  \<^verbatim>\<open>except Exception as e\<close>, lines 59 to 65. \<open>Inl\<close> would be an exception that
  leaves \<^verbatim>\<open>send_request\<close>.
\<close>

definition send_request :: "attempt \<Rightarrow> nat \<Rightarrow> tester \<Rightarrow> string + (outcome \<times> tester)" where
  "send_request a request_id t =
     (case send_request_try a request_id t of
        Inr r \<Rightarrow> Inr r
      | Inl e \<Rightarrow> Inr (Failure request_id e, t\<lparr>errors := errors t @ [e]\<rparr>))"

section \<open>The report\<close>

datatype line =
    Starting string
  | Settings int int py_float
  | Rule
  | NoSuccessfulRequests
  | ResultsHeader
  | TestDuration real
  | RequestsPerSecond real
  | TotalRequests int
  | SuccessfulRequests nat
  | FailedRequests nat
  | StatisticsHeader
  | MinLine real
  | MaxLine real
  | MeanLine real
  | MedianLine real
  | StdDevLine real
  | StatusHeader
  | StatusLine int nat real
  | ErrorHeader nat
  | ErrorLine string nat

text \<open>
  The functions of Python's library that the report calls, on the lists it calls
  them with: \<^verbatim>\<open>min\<close>, \<^verbatim>\<open>max\<close>, \<^verbatim>\<open>statistics.mean\<close>,
  \<^verbatim>\<open>statistics.median\<close> and \<^verbatim>\<open>statistics.stdev\<close> (the sample standard
  deviation, which needs two data points). The source calls the first four on a
  list that is not empty and the last on a list of two or more.
\<close>

definition py_min :: "real list \<Rightarrow> real" where
  "py_min xs = foldl min (hd xs) (tl xs)"

definition py_max :: "real list \<Rightarrow> real" where
  "py_max xs = foldl max (hd xs) (tl xs)"

definition mean :: "real list \<Rightarrow> real" where
  "mean xs = sum_list xs / real (length xs)"

definition median :: "real list \<Rightarrow> real" where
  "median xs =
     (let s = sort xs; n = length xs
      in if n mod 2 = 1 then s ! (n div 2)
         else (s ! (n div 2 - 1) + s ! (n div 2)) / 2)"

definition stdev :: "real list \<Rightarrow> real" where
  "stdev xs = sqrt ((\<Sum>x\<leftarrow>xs. (x - mean xs)\<^sup>2) / real (length xs - 1))"

text \<open>
  \<^verbatim>\<open>sorted(items, key=..., reverse=True)\<close>: Python's sort is stable and stays
  stable under \<^verbatim>\<open>reverse=True\<close>, which it implements by reversing the list
  before and after an ascending stable sort.
\<close>

definition sorted_reverse :: "('a \<Rightarrow> 'k::linorder) \<Rightarrow> 'a list \<Rightarrow> 'a list" where
  "sorted_reverse f xs = rev (sort_key f (rev xs))"

text \<open>Lines 109 to 116.\<close>

definition statistics_lines :: "real list \<Rightarrow> line list" where
  "statistics_lines rts =
     (if rts \<noteq> [] then
        [StatisticsHeader, MinLine (py_min rts), MaxLine (py_max rts),
         MeanLine (mean rts), MedianLine (median rts)]
        @ (if length rts > 1 then [StdDevLine (stdev rts)] else [])
      else [])"

text \<open>
  The loop of lines 119 and 120 over the sorted items. The true division
  \<^verbatim>\<open>count/self.num_requests\<close> raises on a zero divisor.
\<close>

fun status_lines :: "int \<Rightarrow> (int \<times> nat) list \<Rightarrow> py_error + line list" where
  "status_lines n [] = Inr []"
| "status_lines n ((status_code, cnt) # items) =
     (if n = 0 then Inl ZeroDivisionError
      else case status_lines n items of
             Inl e \<Rightarrow> Inl e
           | Inr ls \<Rightarrow> Inr (StatusLine status_code cnt (real cnt / real_of_int n * 100) # ls))"

text \<open>Lines 124 to 129: the dict \<^verbatim>\<open>error_counts\<close>.\<close>

definition error_counts :: "string list \<Rightarrow> (string \<times> nat) list" where
  "error_counts errs = foldl (\<lambda>d e. dict_incr e d) [] errs"

text \<open>Lines 122 to 132.\<close>

definition error_lines :: "string list \<Rightarrow> line list" where
  "error_lines errs =
     (if errs \<noteq> [] then
        ErrorHeader (length errs)
        # map (\<lambda>(e, c). ErrorLine e c) (sorted_reverse snd (error_counts errs))
      else [])"

text \<open>
  \<^verbatim>\<open>print_results\<close>: the lines it prints, or the exception it raises. The
  subtraction of line 99 raises \<^verbatim>\<open>TypeError\<close> when a timestamp is still
  \<^verbatim>\<open>None\<close>, and the division of line 100 raises when the two timestamps are
  equal. A result \<open>Inl\<close> leaves out the lines printed before the exception.
\<close>

definition print_results :: "tester \<Rightarrow> py_error + line list" where
  "print_results t =
     (if response_times t = [] then Inr [NoSuccessfulRequests]
      else case (start_time t, end_time t) of
        (Some s, Some e) \<Rightarrow>
          (let duration = real_of_int (e - s) / 1000000
           in if duration = 0 then Inl ZeroDivisionError
              else
                (let requests_per_second = real_of_int (num_requests t) / duration
                 in case status_lines (num_requests t) (sort (status_codes t)) of
                      Inl err \<Rightarrow> Inl err
                    | Inr sl \<Rightarrow>
                        Inr ([ResultsHeader, TestDuration duration,
                              RequestsPerSecond requests_per_second,
                              TotalRequests (num_requests t),
                              SuccessfulRequests (length (response_times t)),
                              FailedRequests (length (errors t))]
                             @ statistics_lines (response_times t)
                             @ [StatusHeader] @ sl
                             @ error_lines (errors t))))
      | _ \<Rightarrow> Inl TypeError)"

section \<open>The dispatch loop\<close>

text \<open>
  What the loop of \<^verbatim>\<open>run\<close> does, in the order in which it does it: a task
  handed to the pool, a suspension of the submitting thread, a progress line, the
  barrier on a list of futures, and the lines printed around them. A future is
  named by the request id of its task.
\<close>

datatype event =
    Print line
  | Submit nat
  | Sleep py_float
  | Progress int int
  | Wait "nat list"

text \<open>
  \<^verbatim>\<open>time.sleep\<close>: the length is first converted to the time type of the
  interpreter, which raises \<^verbatim>\<open>ValueError\<close> on a \<^verbatim>\<open>nan\<close> and
  \<^verbatim>\<open>OverflowError\<close> on a length outside the range of that type; a negative
  length inside the range raises \<^verbatim>\<open>ValueError\<close>. The largest length that the
  time type holds belongs to the platform and is a parameter, \<open>limit\<close>.
\<close>

fun sleep :: "real \<Rightarrow> py_float \<Rightarrow> py_error + unit" where
  "sleep limit NaN = Inl ValueError"
| "sleep limit PosInf = Inl OverflowError"
| "sleep limit NegInf = Inl OverflowError"
| "sleep limit (Finite secs) =
     (if limit < \<bar>secs\<bar> then Inl OverflowError
      else if secs < 0 then Inl ValueError
      else Inr ())"

text \<open>
  Lines 77 to 84, over the ids that \<^verbatim>\<open>range(self.num_requests)\<close> yields; the
  state of the loop is the list \<^verbatim>\<open>futures\<close> and what has been done so far.
  An iteration submits, sleeps and then writes the progress line; when the sleep
  raises, the loop ends with that exception and the result leaves out what was
  done before it.
\<close>

fun submit_loop :: "real \<Rightarrow> tester \<Rightarrow> nat list \<Rightarrow> nat list \<times> event list \<Rightarrow> py_error + (nat list \<times> event list)" where
  "submit_loop limit t [] (futures, done) = Inr (futures, done)"
| "submit_loop limit t (i # ids) (futures, done) =
     (case sleep limit (interval t) of
        Inl e \<Rightarrow> Inl e
      | Inr _ \<Rightarrow>
          submit_loop limit t ids
            (futures @ [i],
             done @ [Submit i, Sleep (interval t)]
                  @ (if (int i + 1) mod 10 = 0 \<or> int i + 1 = num_requests t
                     then [Progress (int i + 1) (num_requests t)] else [])))"

section \<open>The worker pool\<close>

text \<open>
  The tasks run on the threads of the pool with no lock around lines 45 to 51, so
  the model cuts a call of \<^verbatim>\<open>send_request\<close> into the steps between which
  another thread may run. A task that has its reply is about to write it down: line
  45 for a response, line 60 for an exception. A task that has appended its
  response time is about to read the dict (the test of line 48 and the read of
  line 49), and a task that has read the dict is about to write it (the write of
  line 49 or line 51) with what it has read.
\<close>

datatype task =
    is_Recording: Recording nat
  | Loading nat
  | Storing nat "nat option"

fun task_id :: "task \<Rightarrow> nat" where
  "task_id (Recording i) = i"
| "task_id (Loading i) = i"
| "task_id (Storing i v) = i"

text \<open>
  One step of a task on the shared tester: the tester after the step, and the
  task as it goes on or the outcome that \<^verbatim>\<open>send_request\<close> returns.
\<close>

fun step :: "(nat \<Rightarrow> attempt) \<Rightarrow> task \<Rightarrow> tester \<Rightarrow> tester \<times> (task + outcome)" where
  "step att (Recording i) t =
     (case reply (att i) of
        Response status_code \<Rightarrow>
          (t\<lparr>response_times := response_times t @ [t_recv (att i) - t_send (att i)]\<rparr>,
           Inl (Loading i))
      | Raised e \<Rightarrow> (t\<lparr>errors := errors t @ [e]\<rparr>, Inr (Failure i e)))"
| "step att (Loading i) t =
     (t, Inl (Storing i (map_of (status_codes t) (status_of (reply (att i))))))"
| "step att (Storing i v) t =
     (t\<lparr>status_codes :=
          dict_set (status_of (reply (att i))) (case v of None \<Rightarrow> 1 | Some c \<Rightarrow> c + 1)
            (status_codes t)\<rparr>,
      Inr (Success i (status_of (reply (att i))) (t_recv (att i) - t_send (att i))))"

text \<open>The steps that a task still has to take; a task in the queue has one more.\<close>

fun steps_left :: "task \<Rightarrow> nat" where
  "steps_left (Recording i) = 3"
| "steps_left (Loading i) = 2"
| "steps_left (Storing i v) = 1"

text \<open>
  The pool of \<open>workers\<close> threads. The queue has the submitted tasks in their
  order of submission, \<open>running\<close> has the tasks that a thread has taken, and
  \<open>results\<close> has the futures that are done. At each point one of the running
  tasks takes a step, or a free thread takes the next task from the queue; which
  of these happens is not the program's to choose, and \<open>picks\<close> chooses. The
  pool is done when nothing is left to do.
\<close>

function pool_run ::
  "(nat \<Rightarrow> attempt) \<Rightarrow> nat \<Rightarrow> nat list \<Rightarrow> nat list \<Rightarrow> task list
     \<Rightarrow> (nat \<times> (string + outcome)) list \<Rightarrow> tester
     \<Rightarrow> (nat \<times> (string + outcome)) list \<times> tester" where
  "pool_run att workers picks queue running results t =
     (let m = length running + (if queue \<noteq> [] \<and> length running < workers then 1 else 0)
      in if m = 0 then (results, t)
         else
           (let k = (case picks of [] \<Rightarrow> 0 | p # _ \<Rightarrow> p mod m)
            in if k < length running then
                 (case step att (running ! k) t of
                    (t', Inl task') \<Rightarrow>
                      pool_run att workers (tl picks) queue (running[k := task']) results t'
                  | (t', Inr out) \<Rightarrow>
                      pool_run att workers (tl picks) queue
                        (take k running @ drop (Suc k) running)
                        (results @ [(task_id (running ! k), Inr out)]) t')
               else
                 pool_run att workers (tl picks) (tl queue)
                   (running @ [Recording (hd queue)]) results t))"
  by pat_completeness auto
termination
proof (relation "measure (\<lambda>(att, workers, picks, queue, running, results, t).
                   4 * length queue + sum_list (map steps_left running))", goal_cases)
  case 1
  show ?case by simp
next
  case (2 att workers picks queue running results t m k t' r task')
  have update: "sum_list (ws[j := v]) + ws ! j = sum_list ws + v"
    if "j < length ws" for ws :: "nat list" and j v
    using that
  proof (induction ws arbitrary: j)
    case Nil
    then show ?case by simp
  next
    case (Cons w ws)
    then show ?case by (cases j) auto
  qed
  have less: "steps_left task' < steps_left (running ! k)"
    using \<open>(t', r) = step att (running ! k) t\<close> [symmetric] \<open>r = Inl task'\<close>
    by (cases "running ! k") (auto split: http_result.splits)
  have "sum_list ((map steps_left running)[k := steps_left task']) + steps_left (running ! k)
        = sum_list (map steps_left running) + steps_left task'"
    using update [of k "map steps_left running" "steps_left task'"] \<open>k < length running\<close>
    by simp
  with less have "sum_list ((map steps_left running)[k := steps_left task'])
                  < sum_list (map steps_left running)"
    by linarith
  then show ?case by (simp add: map_update)
next
  case (3 att workers picks queue running results t m k t' r out)
  have remove: "sum_list (take j ws @ drop (Suc j) ws) + ws ! j = sum_list ws"
    if "j < length ws" for ws :: "nat list" and j
    using that
  proof (induction ws arbitrary: j)
    case Nil
    then show ?case by simp
  next
    case (Cons w ws)
    then show ?case by (cases j) (auto simp: add.assoc)
  qed
  have pos: "0 < steps_left (running ! k)"
    by (cases "running ! k") auto
  have "sum_list (take k (map steps_left running) @ drop (Suc k) (map steps_left running))
          + steps_left (running ! k)
        = sum_list (map steps_left running)"
    using remove [of k "map steps_left running"] \<open>k < length running\<close> by simp
  with pos have "sum_list (take k (map steps_left running) @ drop (Suc k) (map steps_left running))
                 < sum_list (map steps_left running)"
    by linarith
  then show ?case by (simp add: take_map drop_map)
next
  case (4 att workers picks queue running results t m k)
  have "k < m"
    using 4(2,3) by (cases picks) simp_all
  have "queue \<noteq> []"
  proof
    assume "queue = []"
    with 4(1,4) \<open>k < m\<close> show False by simp
  qed
  then show ?case by (cases queue) simp_all
qed

declare pool_run.simps [simp del]

text \<open>
  What a run meets: the two readings of \<^verbatim>\<open>datetime.now()\<close>, the longest
  sleep of the platform, what each request attempt does, and the choices of the
  scheduler.
\<close>

record world =
  now_start :: int
  now_end :: int
  sleep_limit :: real
  attempts :: "nat \<Rightarrow> attempt"
  schedule :: "nat list"

text \<open>
  Lines 75 to 87: the \<^verbatim>\<open>with\<close> block, up to the return of
  \<^verbatim>\<open>concurrent.futures.wait\<close>. \<^verbatim>\<open>ThreadPoolExecutor\<close> raises
  \<^verbatim>\<open>ValueError\<close> when \<^verbatim>\<open>max_workers\<close> is not positive. The tasks do
  nothing to the loop and the loop does nothing to the tester, so the pool is run
  behind the loop. The result has what the loop did, the futures in their order
  of completion, and the tester behind the barrier.
\<close>

definition dispatch :: "world \<Rightarrow> tester \<Rightarrow> py_error + (event list \<times> (nat \<times> (string + outcome)) list \<times> tester)" where
  "dispatch w t =
     (if num_threads t \<le> 0 then Inl ValueError
      else case submit_loop (sleep_limit w) t [0..<nat (num_requests t)] ([], []) of
        Inl e \<Rightarrow> Inl e
      | Inr (futures, done) \<Rightarrow>
          (let (results, t') =
                 pool_run (attempts w) (nat (num_threads t)) (schedule w) futures [] [] t
           in Inr (done @ [Wait futures], results, t')))"

text \<open>
  \<^verbatim>\<open>run\<close>, lines 67 to 91: everything it does when it returns, with the
  tester it leaves, or the exception that ends it.
\<close>

definition run :: "world \<Rightarrow> tester \<Rightarrow> py_error + (event list \<times> tester)" where
  "run w t =
     (let t0 = t\<lparr>start_time := Some (now_start w)\<rparr>
      in case dispatch w t0 of
           Inl e \<Rightarrow> Inl e
         | Inr (done, results, t1) \<Rightarrow>
             (let t2 = t1\<lparr>end_time := Some (now_end w)\<rparr>
              in case print_results t2 of
                   Inl e \<Rightarrow> Inl e
                 | Inr ls \<Rightarrow>
                     Inr (map Print [Starting (url t),
                                     Settings (num_threads t) (num_requests t) (interval t),
                                     Rule]
                          @ done @ map Print (Rule # ls), t2)))"

section \<open>Reading a trace and a report\<close>

text \<open>What one iteration of the loop of lines 77 to 84 does when the sleep returns.\<close>

definition iteration :: "tester \<Rightarrow> nat \<Rightarrow> event list" where
  "iteration t i =
     [Submit i, Sleep (interval t)]
     @ (if (int i + 1) mod 10 = 0 \<or> int i + 1 = num_requests t
        then [Progress (int i + 1) (num_requests t)] else [])"

text \<open>The request ids of the tasks submitted in a trace, in the order of submission.\<close>

fun submitted :: "event list \<Rightarrow> nat list" where
  "submitted [] = []"
| "submitted (Submit i # es) = i # submitted es"
| "submitted (e # es) = submitted es"

text \<open>The progress lines of a trace: the pairs \<open>(submitted, total)\<close> written.\<close>

fun progress_shown :: "event list \<Rightarrow> (int \<times> int) list" where
  "progress_shown [] = []"
| "progress_shown (Progress k n # es) = (k, n) # progress_shown es"
| "progress_shown (e # es) = progress_shown es"

text \<open>Every submission in the trace is followed at once by a sleep of the given length.\<close>

fun paced :: "py_float \<Rightarrow> event list \<Rightarrow> bool" where
  "paced secs [] = True"
| "paced secs (Submit i # Sleep s # es) = (s = secs \<and> paced secs es)"
| "paced secs (Submit i # es) = False"
| "paced secs (e # es) = paced secs es"

text \<open>Every progress line in the trace shows the number of submissions made before it, counted from \<open>c\<close>.\<close>

fun progress_exact :: "nat \<Rightarrow> event list \<Rightarrow> bool" where
  "progress_exact c [] = True"
| "progress_exact c (Submit i # es) = progress_exact (Suc c) es"
| "progress_exact c (Progress k n # es) = (k = int c \<and> progress_exact c es)"
| "progress_exact c (e # es) = progress_exact c es"

text \<open>The lines printed in a trace.\<close>

fun printed :: "event list \<Rightarrow> line list" where
  "printed [] = []"
| "printed (Print l # es) = l # printed es"
| "printed (e # es) = printed es"


text \<open>The rows of the error distribution among printed lines: message and count.\<close>

fun error_rows :: "line list \<Rightarrow> (string \<times> nat) list" where
  "error_rows [] = []"
| "error_rows (ErrorLine e k # ls) = (e, k) # error_rows ls"
| "error_rows (l # ls) = error_rows ls"

text \<open>A future whose task returned a success, and one whose task returned a failure.\<close>

fun future_succeeded :: "nat \<times> (string + outcome) \<Rightarrow> bool" where
  "future_succeeded (i, Inr out) = is_success out"
| "future_succeeded (i, Inl e) = False"

fun future_failed :: "nat \<times> (string + outcome) \<Rightarrow> bool" where
  "future_failed (i, Inr out) = (\<not> is_success out)"
| "future_failed (i, Inl e) = False"


text \<open>The distinct elements of a list, in the order of their first occurrence.\<close>

fun first_occurrences :: "'a list \<Rightarrow> 'a list" where
  "first_occurrences [] = []"
| "first_occurrences (x # xs) = x # filter (\<lambda>y. y \<noteq> x) (first_occurrences xs)"

text \<open>
  A sample run of four requests on two threads: request 1 and request 2 raise,
  the others are answered, request 0 with status 404. The tasks complete in the
  order 0, 2, 3, 1, and no two of them are inside lines 45 to 51 together.
\<close>

definition sample_world :: world where
  "sample_world =
     \<lparr>now_start = 0, now_end = 2000000, sleep_limit = 9223372036,
      attempts = (\<lambda>i. if i = 1 then \<lparr>t_send = 0, t_recv = 1, reply = Raised ''boom''\<rparr>
                      else if i = 2 then \<lparr>t_send = 0, t_recv = 1, reply = Raised ''abc''\<rparr>
                      else \<lparr>t_send = 1, t_recv = 1 + real i / 4,
                            reply = Response (if i = 0 then 404 else 200)\<rparr>),
      schedule = [0, 1, 0, 0, 0, 1, 1, 1, 1, 1, 1, 0]\<rparr>"

text \<open>
  A run of three requests on one thread: request 0 is answered, request 1 times
  out and request 2 is refused.
\<close>

definition tie_world :: world where
  "tie_world =
     \<lparr>now_start = 0, now_end = 1000000, sleep_limit = 9223372036,
      attempts = (\<lambda>i. if i = 0 then \<lparr>t_send = 0, t_recv = 1 / 2, reply = Response 200\<rparr>
                      else if i = 1 then \<lparr>t_send = 0, t_recv = 10, reply = Raised ''timeout''\<rparr>
                      else \<lparr>t_send = 0, t_recv = 0, reply = Raised ''refused''\<rparr>),
      schedule = []\<rparr>"


section \<open>Lemmas about the model\<close>


lemma keys_dict_incr:
  "map fst (dict_incr k d) = (if k \<in> set (map fst d) then map fst d else map fst d @ [k])"
  by (induction k d rule: dict_incr.induct) auto

lemma map_of_dict_incr:
  "map_of (dict_incr k d) = (map_of d)(k \<mapsto> (case map_of d k of None \<Rightarrow> 1 | Some c \<Rightarrow> c + 1))"
  by (induction k d rule: dict_incr.induct) (auto simp: fun_eq_iff)

lemma distinct_dict_incr: "distinct (map fst d) \<Longrightarrow> distinct (map fst (dict_incr k d))"
  by (simp add: keys_dict_incr)

lemma send_request_Response:
  "reply a = Response code \<Longrightarrow>
   send_request a i t =
     Inr (Success i code (t_recv a - t_send a),
          t\<lparr>response_times := response_times t @ [t_recv a - t_send a],
            status_codes := dict_incr code (status_codes t)\<rparr>)"
  by (simp add: send_request_def send_request_try_def Let_def)

lemma send_request_Raised:
  "reply a = Raised msg \<Longrightarrow>
   send_request a i t = Inr (Failure i msg, t\<lparr>errors := errors t @ [msg]\<rparr>)"
  by (simp add: send_request_def send_request_try_def)

lemma pool_run_unfold:
  "pool_run att n picks queue running results t =
     (if running = [] \<and> (queue = [] \<or> n = 0) then (results, t)
      else
        (let m = length running + (if queue \<noteq> [] \<and> length running < n then 1 else 0);
             k = (case picks of [] \<Rightarrow> 0 | p # _ \<Rightarrow> p mod m)
         in if k < length running then
              (case step att (running ! k) t of
                 (t', Inl task') \<Rightarrow>
                   pool_run att n (tl picks) queue (running[k := task']) results t'
               | (t', Inr out) \<Rightarrow>
                   pool_run att n (tl picks) queue
                     (take k running @ drop (Suc k) running)
                     (results @ [(task_id (running ! k), Inr out)]) t')
            else
              pool_run att n (tl picks) (tl queue)
                (running @ [Recording (hd queue)]) results t))"
  by (subst pool_run.simps) (auto simp: Let_def)

lemma pool_run_invariant:
  assumes "pool_run att n picks queue running results t = (results', t')"
    and "P queue running results t"
    and "\<And>i q r res s. P (i # q) r res s \<Longrightarrow> length r < n \<Longrightarrow> P q (r @ [Recording i]) res s"
    and "\<And>q r res s k s' task'. P q r res s \<Longrightarrow> k < length r
           \<Longrightarrow> step att (r ! k) s = (s', Inl task') \<Longrightarrow> P q (r[k := task']) res s'"
    and "\<And>q r res s k s' out. P q r res s \<Longrightarrow> k < length r
           \<Longrightarrow> step att (r ! k) s = (s', Inr out)
           \<Longrightarrow> P q (take k r @ drop (Suc k) r) (res @ [(task_id (r ! k), Inr out)]) s'"
  shows "\<exists>q. P q [] results' t' \<and> (q = [] \<or> n = 0)"
  using assms
proof (induction att n picks queue running results t rule: pool_run.induct)
  case (1 att n picks queue running results t)
  define m where "m = length running + (if queue \<noteq> [] \<and> length running < n then 1 else 0)"
  define k where "k = (case picks of [] \<Rightarrow> 0 | p # _ \<Rightarrow> p mod m)"
  note start = "1.prems"(3) and cont = "1.prems"(4) and fin = "1.prems"(5)
  show ?case
  proof (cases "m = 0")
    case True
    then have e: "running = []" "queue = [] \<or> n = 0"
      by (auto simp: m_def split: if_splits)
    then have "results' = results" "t' = t"
      using "1.prems"(1) by (subst (asm) pool_run_unfold, simp)+
    with e "1.prems"(2) show ?thesis by blast
  next
    case False
    then have km: "k < m"
      unfolding k_def by (cases picks) simp_all
    have ne: "\<not> (running = [] \<and> (queue = [] \<or> n = 0))"
      using False by (auto simp: m_def split: if_splits)
    show ?thesis
    proof (cases "k < length running")
      case True
      obtain s' r where st: "step att (running ! k) t = (s', r)"
        by (cases "step att (running ! k) t") auto
      show ?thesis
      proof (cases r)
        case (Inl task')
        have "pool_run att n (tl picks) queue (running[k := task']) results s' = (results', t')"
          using "1.prems"(1) ne True st Inl
          by (subst (asm) pool_run_unfold) (simp add: Let_def m_def [symmetric] k_def [symmetric])
        moreover have "P queue (running[k := task']) results s'"
          using cont [OF "1.prems"(2) True] st Inl by simp
        ultimately show ?thesis
          using "1.IH"(1) [OF m_def False k_def True st [symmetric] Inl] start cont fin
          by blast
      next
        case (Inr out)
        have "pool_run att n (tl picks) queue (take k running @ drop (Suc k) running)
                (results @ [(task_id (running ! k), Inr out)]) s' = (results', t')"
          using "1.prems"(1) ne True st Inr
          by (subst (asm) pool_run_unfold) (simp add: Let_def m_def [symmetric] k_def [symmetric])
        moreover have "P queue (take k running @ drop (Suc k) running)
                         (results @ [(task_id (running ! k), Inr out)]) s'"
          using fin [OF "1.prems"(2) True] st Inr by simp
        ultimately show ?thesis
          using "1.IH"(2) [OF m_def False k_def True st [symmetric] Inr] start cont fin
          by blast
      qed
    next
      case False
      with km have q: "queue \<noteq> []" "length running < n"
        by (auto simp: m_def split: if_splits)
      then obtain i q' where iq: "queue = i # q'" by (cases queue) auto
      have "pool_run att n (tl picks) (tl queue) (running @ [Recording (hd queue)]) results t
            = (results', t')"
        using "1.prems"(1) ne False
        by (subst (asm) pool_run_unfold) (simp add: Let_def m_def [symmetric] k_def [symmetric])
      moreover have "P (tl queue) (running @ [Recording (hd queue)]) results t"
        using start [of i q' running results t] "1.prems"(2) q(2) iq by simp
      ultimately show ?thesis
        using "1.IH"(3) [OF m_def \<open>m \<noteq> 0\<close> k_def False] start cont fin
        by blast
    qed
  qed
qed

lemma step_config:
  assumes "step att task s = (s', r)"
  shows "\<exists>a b c. s' = s\<lparr>response_times := a, status_codes := b, errors := c\<rparr>"
proof (cases task)
  case (Recording i)
  show ?thesis
  proof (cases "reply (att i)")
    case (Response code)
    with assms Recording have "s' = s\<lparr>response_times := response_times s @ [t_recv (att i) - t_send (att i)],
                         status_codes := status_codes s, errors := errors s\<rparr>"
      by auto
    then show ?thesis by blast
  next
    case (Raised e)
    with assms Recording have "s' = s\<lparr>response_times := response_times s,
                         status_codes := status_codes s, errors := errors s @ [e]\<rparr>"
      by auto
    then show ?thesis by blast
  qed
next
  case (Loading i)
  with assms have "s' = s\<lparr>response_times := response_times s,
                         status_codes := status_codes s, errors := errors s\<rparr>"
    by auto
  then show ?thesis by blast
next
  case (Storing i v)
  with assms have "s' = s\<lparr>response_times := response_times s,
        status_codes := dict_set (status_of (reply (att i))) (case v of None \<Rightarrow> 1 | Some c \<Rightarrow> c + 1)
            (status_codes s), errors := errors s\<rparr>"
    by auto
  then show ?thesis by blast
qed

lemma pool_run_config:
  assumes "pool_run att n picks queue running results t = (results', t')"
  shows "\<exists>a b c. t' = t\<lparr>response_times := a, status_codes := b, errors := c\<rparr>"
proof -
  let ?P = "\<lambda>(q :: nat list) (r :: task list) (res :: (nat \<times> (string + outcome)) list) s.
              \<exists>a b c. s = t\<lparr>response_times := a, status_codes := b, errors := c\<rparr>"
  have init: "?P queue running results t"
  proof -
    have "t = t\<lparr>response_times := response_times t, status_codes := status_codes t,
                 errors := errors t\<rparr>" by simp
    then show ?thesis by blast
  qed
  have keep: "?P q r res s'" if p: "?P q0 r0 res0 s" and st: "step att task s = (s', x)"
    for q r res q0 r0 res0 s s' task x
  proof -
    obtain a b c where s: "s = t\<lparr>response_times := a, status_codes := b, errors := c\<rparr>"
      using p by blast
    obtain a' b' c' where "s' = s\<lparr>response_times := a', status_codes := b', errors := c'\<rparr>"
      using step_config [OF st] by blast
    then have "s' = t\<lparr>response_times := a', status_codes := b', errors := c'\<rparr>"
      by (simp add: s)
    then show ?thesis by blast
  qed
  have "\<exists>q. ?P q [] results' t' \<and> (q = [] \<or> n = 0)"
    by (rule pool_run_invariant [OF assms, where P = ?P]) (use init keep in blast)+
  then show ?thesis by blast
qed

text \<open>The lengths that \<^verbatim>\<open>time.sleep\<close> accepts.\<close>

lemma sleep_Inr: "sleep limit x = Inr u \<longleftrightarrow> (\<exists>secs. x = Finite secs \<and> 0 \<le> secs \<and> secs \<le> limit)"
  by (cases x) auto

lemma submit_loop_closed:
  "sleep limit (interval t) = Inr () \<Longrightarrow>
   submit_loop limit t ids (fs, done) = Inr (fs @ ids, done @ concat (map (iteration t) ids))"
  by (induction ids arbitrary: fs "done") (simp_all add: iteration_def)

lemma submit_loop_fails:
  "sleep limit (interval t) = Inl e \<Longrightarrow> ids \<noteq> [] \<Longrightarrow> submit_loop limit t ids (fs, done) = Inl e"
  by (cases ids) simp_all

lemma submit_loop_Inr:
  assumes "submit_loop limit t ids (fs, done) = Inr r"
  shows "r = (fs @ ids, done @ concat (map (iteration t) ids))"
    and "ids \<noteq> [] \<Longrightarrow> sleep limit (interval t) = Inr ()"
proof -
  have ok: "sleep limit (interval t) = Inr ()" if "ids \<noteq> []"
  proof (cases "sleep limit (interval t)")
    case (Inl e)
    with assms that show ?thesis by (simp add: submit_loop_fails)
  next
    case (Inr u)
    then show ?thesis by simp
  qed
  then show "ids \<noteq> [] \<Longrightarrow> sleep limit (interval t) = Inr ()" .
  show "r = (fs @ ids, done @ concat (map (iteration t) ids))"
  proof (cases "ids = []")
    case True
    with assms show ?thesis by simp
  next
    case False
    with assms ok show ?thesis by (simp add: submit_loop_closed)
  qed
qed

lemma dispatch_Inr:
  assumes "dispatch w t = Inr (done, results, t')"
  shows "done = concat (map (iteration t) [0..<nat (num_requests t)]) @ [Wait [0..<nat (num_requests t)]]"
    and "pool_run (attempts w) (nat (num_threads t)) (schedule w) [0..<nat (num_requests t)] [] [] t
         = (results, t')"
    and "0 < num_threads t"
    and "0 < num_requests t \<Longrightarrow> sleep (sleep_limit w) (interval t) = Inr ()"
proof -
  show nt: "0 < num_threads t"
    using assms by (cases "0 < num_threads t") (auto simp: dispatch_def)
  obtain r where r: "submit_loop (sleep_limit w) t [0..<nat (num_requests t)] ([], []) = Inr r"
    using assms nt by (auto simp: dispatch_def split: sum.splits)
  have r': "r = ([0..<nat (num_requests t)], concat (map (iteration t) [0..<nat (num_requests t)]))"
    using submit_loop_Inr(1) [OF r] by simp
  show "done = concat (map (iteration t) [0..<nat (num_requests t)]) @ [Wait [0..<nat (num_requests t)]]"
    using assms r r' nt by (auto simp: dispatch_def split: prod.splits)
  show "pool_run (attempts w) (nat (num_threads t)) (schedule w) [0..<nat (num_requests t)] [] [] t
         = (results, t')"
    using assms r r' nt by (auto simp: dispatch_def split: prod.splits)
  show "0 < num_requests t \<Longrightarrow> sleep (sleep_limit w) (interval t) = Inr ()"
    using submit_loop_Inr(2) [OF r] by simp
qed

lemma dispatch_returns:
  assumes "0 < num_threads t"
    and "sleep (sleep_limit w) (interval t) = Inr () \<or> num_requests t \<le> 0"
  shows "\<exists>r. dispatch w t = Inr r"
proof -
  have "\<exists>r. submit_loop (sleep_limit w) t [0..<nat (num_requests t)] ([], []) = Inr r"
    using assms(2)
  proof
    assume "sleep (sleep_limit w) (interval t) = Inr ()"
    then show ?thesis by (simp add: submit_loop_closed)
  next
    assume "num_requests t \<le> 0"
    then show ?thesis by simp
  qed
  then show ?thesis
    using assms(1) by (auto simp: dispatch_def split: prod.splits)
qed

lemma dispatch_fails:
  "num_threads t \<le> 0 \<Longrightarrow> dispatch w t = Inl ValueError"
  "0 < num_threads t \<Longrightarrow> 0 < num_requests t \<Longrightarrow> sleep (sleep_limit w) (interval t) = Inl e
     \<Longrightarrow> dispatch w t = Inl e"
proof -
  show "num_threads t \<le> 0 \<Longrightarrow> dispatch w t = Inl ValueError"
    by (simp add: dispatch_def)
  assume a: "0 < num_threads t" "0 < num_requests t" "sleep (sleep_limit w) (interval t) = Inl e"
  then have "[0..<nat (num_requests t)] \<noteq> []" by simp
  then have "submit_loop (sleep_limit w) t [0..<nat (num_requests t)] ([], []) = Inl e"
    using a(3) by (rule submit_loop_fails [rotated])
  then show "dispatch w t = Inl e"
    using a(1) by (simp add: dispatch_def)
qed

lemma dispatch_config:
  assumes "dispatch w t = Inr (done, results, t')"
  shows "\<exists>a b c. t' = t\<lparr>response_times := a, status_codes := b, errors := c\<rparr>"
  using pool_run_config [OF dispatch_Inr(2) [OF assms]] .

lemma submitted_append: "submitted (xs @ ys) = submitted xs @ submitted ys"
  by (induction xs rule: submitted.induct) auto

lemma progress_shown_append: "progress_shown (xs @ ys) = progress_shown xs @ progress_shown ys"
  by (induction xs rule: progress_shown.induct) auto

lemma submitted_iterations: "submitted (concat (map (iteration t) ids)) = ids"
  by (induction ids) (auto simp: iteration_def)

lemma paced_iterations:
  "paced (interval t) es \<Longrightarrow> paced (interval t) (concat (map (iteration t) ids) @ es)"
  by (induction ids) (auto simp: iteration_def)

lemma progress_iterations:
  "progress_shown (concat (map (iteration t) ids))
   = map (\<lambda>i. (int i + 1, num_requests t))
       (filter (\<lambda>i. (int i + 1) mod 10 = 0 \<or> int i + 1 = num_requests t) ids)"
  by (induction ids) (auto simp: iteration_def)

lemma progress_exact_iterations:
  "progress_exact a (concat (map (iteration t) [a..<b]) @ es) = (if a \<le> b then progress_exact b es else progress_exact a es)"
proof (induction "b - a" arbitrary: a)
  case 0
  then show ?case by simp
next
  case (Suc d)
  then have ab: "a < b" and d: "d = b - Suc a" by auto
  have "progress_exact (Suc a) (concat (map (iteration t) [Suc a..<b]) @ es) = progress_exact b es"
    using Suc.hyps(1) [OF d] ab by simp
  then show ?case
    using ab by (simp add: upt_conv_Cons iteration_def)
qed

lemma printed_append: "printed (xs @ ys) = printed xs @ printed ys"
  by (induction xs rule: printed.induct) auto

lemma printed_map_Print: "printed (map Print ls) = ls"
  by (induction ls) auto

lemma printed_iterations: "printed (concat (map (iteration t) ids)) = []"
  by (induction ids) (auto simp: iteration_def)


lemma error_rows_append: "error_rows (xs @ ys) = error_rows xs @ error_rows ys"
  by (induction xs rule: error_rows.induct) auto

lemma status_lines_Inr:
  "status_lines n items = Inr sl \<Longrightarrow>
   sl = map (\<lambda>(c, k). StatusLine c k (real k / real_of_int n * 100)) items \<and> (items = [] \<or> n \<noteq> 0)"
  by (induction n items arbitrary: sl rule: status_lines.induct) (auto split: if_splits sum.splits)

lemma status_lines_returns:
  "n \<noteq> 0 \<Longrightarrow> status_lines n items = Inr (map (\<lambda>(c, k). StatusLine c k (real k / real_of_int n * 100)) items)"
  by (induction n items rule: status_lines.induct) auto




lemma error_rows_error_lines: "error_rows (error_lines errs) = sorted_reverse snd (error_counts errs)"
proof -
  have m: "error_rows (map (\<lambda>(e, c). ErrorLine e c) xs) = xs" for xs
    by (induction xs) auto
  show ?thesis
  proof (cases "errs = []")
    case True
    then show ?thesis by (simp add: error_lines_def error_counts_def sorted_reverse_def)
  next
    case False
    then show ?thesis by (simp add: error_lines_def m)
  qed
qed

lemma print_results_Inr:
  assumes "print_results t = Inr ls" and "response_times t \<noteq> []"
  shows "\<exists>s e. start_time t = Some s \<and> end_time t = Some e \<and> e \<noteq> s
           \<and> (status_codes t = [] \<or> num_requests t \<noteq> 0)
           \<and> ls = [ResultsHeader, TestDuration (real_of_int (e - s) / 1000000),
                    RequestsPerSecond (real_of_int (num_requests t) / (real_of_int (e - s) / 1000000)),
                    TotalRequests (num_requests t),
                    SuccessfulRequests (length (response_times t)),
                    FailedRequests (length (errors t))]
                   @ statistics_lines (response_times t)
                   @ [StatusHeader]
                   @ map (\<lambda>(c, k). StatusLine c k (real k / real_of_int (num_requests t) * 100))
                       (sort (status_codes t))
                   @ error_lines (errors t)"
proof -
  obtain s e where se: "start_time t = Some s" "end_time t = Some e"
    using assms by (auto simp: print_results_def split: option.splits)
  have ne: "e \<noteq> s"
    using assms se by (auto simp: print_results_def split: if_splits)
  obtain sl where sl: "status_lines (num_requests t) (sort (status_codes t)) = Inr sl"
    using assms se ne by (auto simp: print_results_def Let_def split: sum.splits)
  have "sort (status_codes t) = [] \<longleftrightarrow> status_codes t = []"
    by (metis length_sort length_0_conv)
  then show ?thesis
    using assms se ne sl status_lines_Inr [OF sl]
    by (auto simp: print_results_def Let_def)
qed

lemma print_results_returns:
  assumes "start_time t = Some s" and "end_time t = Some e" and "e \<noteq> s" and "num_requests t \<noteq> 0"
  shows "\<exists>ls. print_results t = Inr ls"
  using assms by (simp add: print_results_def Let_def status_lines_returns)

lemma run_Inr:
  assumes "run w t = Inr (out, t2)"
  shows "\<exists>done results t1 ls.
           dispatch w (t\<lparr>start_time := Some (now_start w)\<rparr>) = Inr (done, results, t1)
         \<and> t2 = t1\<lparr>end_time := Some (now_end w)\<rparr>
         \<and> print_results t2 = Inr ls
         \<and> printed out = [Starting (url t), Settings (num_threads t) (num_requests t) (interval t), Rule]
                          @ Rule # ls"
proof -
  obtain d rs t1 where d: "dispatch w (t\<lparr>start_time := Some (now_start w)\<rparr>) = Inr (d, rs, t1)"
    using assms by (auto simp: run_def Let_def split: sum.splits)
  obtain ls where ls: "print_results (t1\<lparr>end_time := Some (now_end w)\<rparr>) = Inr ls"
    using assms d by (auto simp: run_def Let_def split: sum.splits)
  have t2: "t2 = t1\<lparr>end_time := Some (now_end w)\<rparr>"
    and out: "out = map Print [Starting (url t), Settings (num_threads t) (num_requests t) (interval t), Rule]
                    @ d @ map Print (Rule # ls)"
    using assms d ls by (auto simp: run_def Let_def)
  have "printed d = []"
    using dispatch_Inr(1) [OF d] by (simp add: printed_append printed_iterations)
  then have "printed out = [Starting (url t), Settings (num_threads t) (num_requests t) (interval t), Rule] @ Rule # ls"
    unfolding out by (simp add: printed_append printed_map_Print del: map_append)
  with d t2 ls show ?thesis by blast
qed

lemma run_report:
  assumes "run w (LoadTester u nt nr iv) = Inr (out, t')" and "response_times t' \<noteq> []"
  shows "now_end w \<noteq> now_start w"
    and "num_requests t' = nr"
    and "printed out =
           [Starting u, Settings nt nr iv, Rule, Rule,
            ResultsHeader, TestDuration (real_of_int (now_end w - now_start w) / 1000000),
            RequestsPerSecond (real_of_int nr / (real_of_int (now_end w - now_start w) / 1000000)),
            TotalRequests nr,
            SuccessfulRequests (length (response_times t')),
            FailedRequests (length (errors t'))]
           @ statistics_lines (response_times t')
           @ [StatusHeader]
           @ map (\<lambda>(c, k). StatusLine c k (real k / real_of_int nr * 100)) (sort (status_codes t'))
           @ error_lines (errors t')"
proof -
  obtain d rs t1 ls where
    d: "dispatch w ((LoadTester u nt nr iv)\<lparr>start_time := Some (now_start w)\<rparr>) = Inr (d, rs, t1)"
    and t': "t' = t1\<lparr>end_time := Some (now_end w)\<rparr>"
    and ls: "print_results t' = Inr ls"
    and out: "printed out = [Starting (url (LoadTester u nt nr iv)),
                Settings (num_threads (LoadTester u nt nr iv)) (num_requests (LoadTester u nt nr iv))
                  (interval (LoadTester u nt nr iv)), Rule] @ Rule # ls"
    using run_Inr [OF assms(1)] by blast
  obtain a b c where
    "t1 = (LoadTester u nt nr iv)\<lparr>start_time := Some (now_start w),
            response_times := a, status_codes := b, errors := c\<rparr>"
    using dispatch_config [OF d] by blast
  then have f: "num_requests t' = nr" "start_time t' = Some (now_start w)"
    "end_time t' = Some (now_end w)"
    unfolding t' by (simp_all add: LoadTester_def)
  obtain s e where se: "start_time t' = Some s" "end_time t' = Some e" "e \<noteq> s"
    and ls': "ls = [ResultsHeader, TestDuration (real_of_int (e - s) / 1000000),
                RequestsPerSecond (real_of_int (num_requests t') / (real_of_int (e - s) / 1000000)),
                TotalRequests (num_requests t'),
                SuccessfulRequests (length (response_times t')),
                FailedRequests (length (errors t'))]
               @ statistics_lines (response_times t')
               @ [StatusHeader]
               @ map (\<lambda>(c, k). StatusLine c k (real k / real_of_int (num_requests t') * 100))
                   (sort (status_codes t'))
               @ error_lines (errors t')"
    using print_results_Inr [OF ls assms(2)] by blast
  from se f show "now_end w \<noteq> now_start w" by simp
  show "num_requests t' = nr" by (rule f)
  from se f have "s = now_start w" "e = now_end w" by simp_all
  then show "printed out =
           [Starting u, Settings nt nr iv, Rule, Rule,
            ResultsHeader, TestDuration (real_of_int (now_end w - now_start w) / 1000000),
            RequestsPerSecond (real_of_int nr / (real_of_int (now_end w - now_start w) / 1000000)),
            TotalRequests nr,
            SuccessfulRequests (length (response_times t')),
            FailedRequests (length (errors t'))]
           @ statistics_lines (response_times t')
           @ [StatusHeader]
           @ map (\<lambda>(c, k). StatusLine c k (real k / real_of_int nr * 100)) (sort (status_codes t'))
           @ error_lines (errors t')"
    unfolding out ls' f by (simp add: LoadTester_def)
qed

lemma status_line_not_other:
  "RequestsPerSecond x \<notin> set (map (\<lambda>(c, k). StatusLine c k (f c k)) items)"
  "TestDuration x \<notin> set (map (\<lambda>(c, k). StatusLine c k (f c k)) items)"
  "MinLine x \<notin> set (map (\<lambda>(c, k). StatusLine c k (f c k)) items)"
  "MaxLine x \<notin> set (map (\<lambda>(c, k). StatusLine c k (f c k)) items)"
  "MeanLine x \<notin> set (map (\<lambda>(c, k). StatusLine c k (f c k)) items)"
  "MedianLine x \<notin> set (map (\<lambda>(c, k). StatusLine c k (f c k)) items)"
  "StdDevLine x \<notin> set (map (\<lambda>(c, k). StatusLine c k (f c k)) items)"
  by auto

lemma error_line_not_other:
  "RequestsPerSecond x \<notin> set (error_lines errs)"
  "TestDuration x \<notin> set (error_lines errs)"
  "MinLine x \<notin> set (error_lines errs)"
  "MaxLine x \<notin> set (error_lines errs)"
  "MeanLine x \<notin> set (error_lines errs)"
  "MedianLine x \<notin> set (error_lines errs)"
  "StdDevLine x \<notin> set (error_lines errs)"
  by (auto simp: error_lines_def)

lemma foldl_min: "foldl min (a::real) xs = Min (insert a (set xs))"
proof (induction xs arbitrary: a)
  case Nil
  show ?case by simp
next
  case (Cons x xs)
  have "Min (insert (min a x) (set xs)) = Min (insert a (insert x (set xs)))"
    by (cases "set xs = {}") (simp_all add: min.assoc)
  then show ?case by (simp add: Cons.IH)
qed

lemma foldl_max: "foldl max (a::real) xs = Max (insert a (set xs))"
proof (induction xs arbitrary: a)
  case Nil
  show ?case by simp
next
  case (Cons x xs)
  have "Max (insert (max a x) (set xs)) = Max (insert a (insert x (set xs)))"
    by (cases "set xs = {}") (simp_all add: max.assoc)
  then show ?case by (simp add: Cons.IH)
qed

lemma py_min_Min: "xs \<noteq> [] \<Longrightarrow> py_min xs = Min (set xs)"
  by (cases xs) (simp_all add: py_min_def foldl_min)

lemma py_max_Max: "xs \<noteq> [] \<Longrightarrow> py_max xs = Max (set xs)"
  by (cases xs) (simp_all add: py_max_def foldl_max)

lemma set_first_occurrences: "set (first_occurrences xs) = set xs"
  by (induction xs) auto

lemma distinct_first_occurrences: "distinct (first_occurrences xs)"
  by (induction xs) (auto simp: set_first_occurrences)

lemma distinct_foldl_dict_incr:
  "distinct (map fst d) \<Longrightarrow> distinct (map fst (foldl (\<lambda>d c. dict_incr c d) d cs))"
  by (induction cs arbitrary: d) (simp_all add: distinct_dict_incr)

lemma map_of_foldl_dict_incr:
  "map_of (foldl (\<lambda>d c. dict_incr c d) d cs) c
   = (if c \<in> set cs
      then Some ((case map_of d c of None \<Rightarrow> 0 | Some k \<Rightarrow> k) + count_list cs c)
      else map_of d c)"
proof (induction cs arbitrary: d)
  case Nil
  show ?case by simp
next
  case (Cons x cs)
  show ?case
    by (simp add: Cons.IH map_of_dict_incr split: option.splits)
qed

lemma counted_entries:
  "(c, k) \<in> set (foldl (\<lambda>d c. dict_incr c d) [] cs) \<longleftrightarrow> c \<in> set cs \<and> k = count_list cs c"
proof -
  have "distinct (map fst (foldl (\<lambda>d c. dict_incr c d) [] cs))"
    by (rule distinct_foldl_dict_incr) simp
  then have "(c, k) \<in> set (foldl (\<lambda>d c. dict_incr c d) [] cs)
             \<longleftrightarrow> map_of (foldl (\<lambda>d c. dict_incr c d) [] cs) c = Some k"
    by simp
  then show ?thesis
    by (auto simp: map_of_foldl_dict_incr)
qed

lemma keys_foldl_dict_incr:
  "map fst (foldl (\<lambda>d e. dict_incr e d) d es)
   = map fst d @ filter (\<lambda>e. e \<notin> set (map fst d)) (first_occurrences es)"
proof (induction es arbitrary: d)
  case Nil
  show ?case by simp
next
  case (Cons x es)
  show ?case
  proof (cases "x \<in> set (map fst d)")
    case True
    then have "filter (\<lambda>e. e \<notin> set (map fst d)) (filter (\<lambda>y. y \<noteq> x) (first_occurrences es))
               = filter (\<lambda>e. e \<notin> set (map fst d)) (first_occurrences es)"
      by (auto intro: filter_cong)
    with True show ?thesis
      by (simp add: Cons.IH keys_dict_incr)
  next
    case False
    have "filter (\<lambda>e. e \<notin> set (map fst d @ [x])) (first_occurrences es)
          = filter (\<lambda>e. e \<notin> set (map fst d)) (filter (\<lambda>y. y \<noteq> x) (first_occurrences es))"
      by (auto intro: filter_cong)
    with False show ?thesis
      by (simp add: Cons.IH keys_dict_incr)
  qed
qed

lemma error_counts_closed:
  "error_counts errs = map (\<lambda>e. (e, count_list errs e)) (first_occurrences errs)"
proof -
  have k: "map fst (error_counts errs) = first_occurrences errs"
    by (simp add: error_counts_def keys_foldl_dict_incr)
  have "\<forall>p \<in> set (error_counts errs). snd p = count_list errs (fst p)"
    using counted_entries [of _ _ errs] by (auto simp: error_counts_def)
  then have "map (\<lambda>p. (fst p, count_list errs (fst p))) (error_counts errs) = error_counts errs"
    by (intro map_idI) (auto simp: prod_eq_iff)
  then have "error_counts errs = map (\<lambda>e. (e, count_list errs e)) (map fst (error_counts errs))"
    by (simp add: comp_def)
  then show ?thesis
    unfolding k .
qed

lemma sorted_reverse_stable:
  "filter (\<lambda>r. f r = k) (sorted_reverse f xs) = filter (\<lambda>r. f r = k) xs"
proof -
  have "filter (\<lambda>r. f r = k) (sort_key f (rev xs)) = filter (\<lambda>r. f r = k) (rev xs)"
    by (rule sort_key_stable)
  then show ?thesis
    by (simp add: sorted_reverse_def rev_filter [symmetric])
qed

lemma sorted_reverse_descending: "sorted (rev (map f (sorted_reverse f xs)))"
  by (simp add: sorted_reverse_def rev_map)

lemma mset_sorted_reverse: "mset (sorted_reverse f xs) = mset xs"
  by (simp add: sorted_reverse_def)

lemma error_rows_run:
  assumes "run w (LoadTester u nt nr iv) = Inr (out, t')" and "response_times t' \<noteq> []"
  shows "error_rows (printed out) = sorted_reverse snd (error_counts (errors t'))"
proof -
  have a: "error_rows (statistics_lines rts) = []" for rts
    by (simp add: statistics_lines_def)
  have b: "error_rows (map (\<lambda>(c, k). StatusLine c k (f c k)) items) = []" for f items
    by (induction items) auto
  show ?thesis
    unfolding run_report(3) [OF assms]
    by (simp add: error_rows_append a b error_rows_error_lines)
qed

lemma sample_dispatch:
  "dispatch sample_world ((LoadTester ''http://h'' 2 4 (Finite 0))\<lparr>start_time := Some 0\<rparr>)
   = Inr ([Submit 0, Sleep (Finite 0), Submit 1, Sleep (Finite 0), Submit 2, Sleep (Finite 0), Submit 3, Sleep (Finite 0),
           Progress 4 4, Wait [0, 1, 2, 3]],
          [(0, Inr (Success 0 404 0)), (2, Inr (Failure 2 ''abc'')),
           (3, Inr (Success 3 200 (3 / 4))), (1, Inr (Failure 1 ''boom''))],
          \<lparr>url = ''http://h'', num_threads = 2, num_requests = 4, interval = Finite 0,
           response_times = [0, 3 / 4], status_codes = [(404, 1), (200, 1)],
           errors = [''abc'', ''boom''], start_time = Some 0, end_time = None\<rparr>)"
  by code_simp

lemma sample_run:
  "run sample_world (LoadTester ''http://h'' 2 4 (Finite 0))
   = Inr (map Print [Starting ''http://h'', Settings 2 4 (Finite 0), Rule]
          @ [Submit 0, Sleep (Finite 0), Submit 1, Sleep (Finite 0), Submit 2, Sleep (Finite 0), Submit 3, Sleep (Finite 0),
             Progress 4 4, Wait [0, 1, 2, 3]]
          @ map Print
             [Rule, ResultsHeader, TestDuration 2, RequestsPerSecond 2, TotalRequests 4,
              SuccessfulRequests 2, FailedRequests 2,
              StatisticsHeader, MinLine 0, MaxLine (3 / 4), MeanLine (3 / 8), MedianLine (3 / 8),
              StdDevLine (stdev [0, 3 / 4]),
              StatusHeader, StatusLine 200 1 25, StatusLine 404 1 25,
              ErrorHeader 2, ErrorLine ''abc'' 1, ErrorLine ''boom'' 1],
          \<lparr>url = ''http://h'', num_threads = 2, num_requests = 4, interval = Finite 0,
           response_times = [0, 3 / 4], status_codes = [(404, 1), (200, 1)],
           errors = [''abc'', ''boom''], start_time = Some 0, end_time = Some 2000000\<rparr>)"
proof -
  have s: "now_start sample_world = 0" "now_end sample_world = 2000000"
    by (simp_all add: sample_world_def)
  have p: "print_results \<lparr>url = ''http://h'', num_threads = 2, num_requests = 4, interval = Finite 0,
           response_times = [0, 3 / 4], status_codes = [(404, 1), (200, 1)],
           errors = [''abc'', ''boom''], start_time = Some 0, end_time = Some 2000000\<rparr>
     = Inr [ResultsHeader, TestDuration 2, RequestsPerSecond 2, TotalRequests 4,
              SuccessfulRequests 2, FailedRequests 2,
              StatisticsHeader, MinLine 0, MaxLine (3 / 4), MeanLine (3 / 8), MedianLine (3 / 8),
              StdDevLine (stdev [0, 3 / 4]),
              StatusHeader, StatusLine 200 1 25, StatusLine 404 1 25,
              ErrorHeader 2, ErrorLine ''abc'' 1, ErrorLine ''boom'' 1]"
    by (simp add: print_results_def statistics_lines_def py_min_def py_max_def mean_def
          median_def error_lines_def error_counts_def sorted_reverse_def Let_def)
  show ?thesis
    by (simp add: run_def s sample_dispatch [unfolded LoadTester_def, simplified] LoadTester_def
          Let_def p [simplified])
qed

lemma tie_dispatch:
  "dispatch tie_world ((LoadTester ''http://h'' 1 3 (Finite 0))\<lparr>start_time := Some 0\<rparr>)
   = Inr ([Submit 0, Sleep (Finite 0), Submit 1, Sleep (Finite 0), Submit 2, Sleep (Finite 0), Progress 3 3, Wait [0, 1, 2]],
          [(0, Inr (Success 0 200 (1 / 2))), (1, Inr (Failure 1 ''timeout'')),
           (2, Inr (Failure 2 ''refused''))],
          \<lparr>url = ''http://h'', num_threads = 1, num_requests = 3, interval = Finite 0,
           response_times = [1 / 2], status_codes = [(200, 1)],
           errors = [''timeout'', ''refused''], start_time = Some 0, end_time = None\<rparr>)"
  by code_simp

lemma tie_run:
  "run tie_world (LoadTester ''http://h'' 1 3 (Finite 0))
   = Inr ([Print (Starting ''http://h''), Print (Settings 1 3 (Finite 0)), Print Rule,
           Submit 0, Sleep (Finite 0), Submit 1, Sleep (Finite 0), Submit 2, Sleep (Finite 0), Progress 3 3, Wait [0, 1, 2],
           Print Rule, Print ResultsHeader, Print (TestDuration 1), Print (RequestsPerSecond 3),
           Print (TotalRequests 3), Print (SuccessfulRequests 1), Print (FailedRequests 2),
           Print StatisticsHeader, Print (MinLine (1 / 2)), Print (MaxLine (1 / 2)),
           Print (MeanLine (1 / 2)), Print (MedianLine (1 / 2)),
           Print StatusHeader, Print (StatusLine 200 1 (100 / 3)),
           Print (ErrorHeader 2), Print (ErrorLine ''timeout'' 1), Print (ErrorLine ''refused'' 1)],
          \<lparr>url = ''http://h'', num_threads = 1, num_requests = 3, interval = Finite 0,
           response_times = [1 / 2], status_codes = [(200, 1)],
           errors = [''timeout'', ''refused''], start_time = Some 0, end_time = Some 1000000\<rparr>)"
proof -
  have s: "now_start tie_world = 0" "now_end tie_world = 1000000"
    by (simp_all add: tie_world_def)
  have p: "print_results \<lparr>url = ''http://h'', num_threads = 1, num_requests = 3, interval = Finite 0,
           response_times = [1 / 2], status_codes = [(200, 1)],
           errors = [''timeout'', ''refused''], start_time = Some 0, end_time = Some 1000000\<rparr>
     = Inr [ResultsHeader, TestDuration 1, RequestsPerSecond 3, TotalRequests 3,
            SuccessfulRequests 1, FailedRequests 2,
            StatisticsHeader, MinLine (1 / 2), MaxLine (1 / 2), MeanLine (1 / 2), MedianLine (1 / 2),
            StatusHeader, StatusLine 200 1 (100 / 3),
            ErrorHeader 2, ErrorLine ''timeout'' 1, ErrorLine ''refused'' 1]"
    by (simp add: print_results_def statistics_lines_def py_min_def py_max_def mean_def
          median_def error_lines_def error_counts_def sorted_reverse_def Let_def)
  show ?thesis
    by (simp add: run_def s tie_dispatch [unfolded LoadTester_def, simplified] LoadTester_def
          Let_def p [simplified])
qed

lemma step_Inl:
  assumes "step att x s = (s', Inl y)"
  obtains (appended) i c where "x = Recording i" "reply (att i) = Response c" "y = Loading i"
      "s' = s\<lparr>response_times := response_times s @ [t_recv (att i) - t_send (att i)]\<rparr>"
  | (loaded) i where "x = Loading i"
      "y = Storing i (map_of (status_codes s) (status_of (reply (att i))))" "s' = s"
proof (cases x)
  case (Recording i)
  show ?thesis
  proof (cases "reply (att i)")
    case (Response c)
    with assms Recording show ?thesis by (intro appended [of i c]) auto
  next
    case (Raised e)
    with assms Recording show ?thesis by simp
  qed
next
  case (Loading i)
  with assms show ?thesis by (intro loaded [of i]) auto
next
  case (Storing i v)
  with assms show ?thesis by simp
qed

lemma step_Inr:
  assumes "step att x s = (s', Inr out)"
  obtains (failed) i e where "x = Recording i" "reply (att i) = Raised e" "out = Failure i e"
      "s' = s\<lparr>errors := errors s @ [e]\<rparr>"
  | (stored) i v where "x = Storing i v"
      "out = Success i (status_of (reply (att i))) (t_recv (att i) - t_send (att i))"
      "s' = s\<lparr>status_codes :=
               dict_set (status_of (reply (att i))) (case v of None \<Rightarrow> 1 | Some c \<Rightarrow> c + 1)
                 (status_codes s)\<rparr>"
proof (cases x)
  case (Recording i)
  show ?thesis
  proof (cases "reply (att i)")
    case (Response c)
    with assms Recording show ?thesis by simp
  next
    case (Raised e)
    with assms Recording show ?thesis by (intro failed [of i e]) auto
  qed
next
  case (Loading i)
  with assms show ?thesis by simp
next
  case (Storing i v)
  with assms show ?thesis by (intro stored [of i v]) auto
qed

lemma length_filter_update:
  "k < length xs \<Longrightarrow>
   length (filter P (xs[k := y])) + (if P (xs ! k) then 1 else 0)
   = length (filter P xs) + (if P y then 1 else 0)"
proof (induction xs arbitrary: k)
  case Nil
  then show ?case by simp
next
  case (Cons x xs)
  then show ?case by (cases k) auto
qed

lemma length_filter_remove:
  "k < length xs \<Longrightarrow>
   length (filter P (take k xs @ drop (Suc k) xs)) + (if P (xs ! k) then 1 else 0)
   = length (filter P xs)"
proof (induction xs arbitrary: k)
  case Nil
  then show ?case by simp
next
  case (Cons x xs)
  then show ?case by (cases k) auto
qed

lemma mset_remove_nth:
  "k < length xs \<Longrightarrow> add_mset (xs ! k) (mset (take k xs @ drop (Suc k) xs)) = mset xs"
proof -
  assume "k < length xs"
  then have "xs = take k xs @ xs ! k # drop (Suc k) xs"
    by (rule id_take_nth_drop)
  then have "mset xs = mset (take k xs @ xs ! k # drop (Suc k) xs)"
    by simp
  then show ?thesis by simp
qed

lemma map_task_id_update:
  "k < length r \<Longrightarrow> task_id y = task_id (r ! k) \<Longrightarrow> map task_id (r[k := y]) = map task_id r"
  by (simp add: map_update list_update_same_conv)

text \<open>What the pool keeps, whatever the threads do.\<close>

lemma pool_run_lengths:
  assumes run: "pool_run att n picks queue [] [] t = (results', t')" and n: "0 < n"
  shows "length (response_times t') + length (errors t')
         = length (response_times t) + length (errors t) + length queue"
proof -
  let ?N = "length (response_times t) + length (errors t) + length queue"
  let ?P = "\<lambda>(q :: nat list) r (res :: (nat \<times> (string + outcome)) list) s.
      length (response_times s) + length (errors s) + length q + length (filter is_Recording r) = ?N"
  have init: "?P queue [] [] t" by simp
  have start: "?P q (r @ [Recording i]) res s" if "?P (i # q) r res s" for i q r res s
    using that by simp
  have cont: "?P q (r[k := y]) res s'"
    if p: "?P q r res s" and k: "k < length r" and st: "step att (r ! k) s = (s', Inl y)"
    for q r res s k s' y
    using st
  proof (cases rule: step_Inl)
    case (appended i c)
    then show ?thesis
      using p length_filter_update [OF k, of is_Recording y] by simp
  next
    case (loaded i)
    then show ?thesis
      using p length_filter_update [OF k, of is_Recording y] by simp
  qed
  have fin: "?P q (take k r @ drop (Suc k) r) (res @ [(task_id (r ! k), Inr out)]) s'"
    if p: "?P q r res s" and k: "k < length r" and st: "step att (r ! k) s = (s', Inr out)"
    for q r res s k s' out
    using st
  proof (cases rule: step_Inr)
    case (failed i e)
    then show ?thesis
      using p length_filter_remove [OF k, of is_Recording] by simp
  next
    case (stored i v)
    then show ?thesis
      using p length_filter_remove [OF k, of is_Recording] by simp
  qed
  have "\<exists>q. ?P q [] results' t' \<and> (q = [] \<or> n = 0)"
    using run init start cont fin by (rule pool_run_invariant [where P = ?P])
  then show ?thesis using n by auto
qed

lemma pool_run_ids:
  assumes run: "pool_run att n picks queue [] [] t = (results', t')" and n: "0 < n"
  shows "mset (map fst results') = mset queue"
    and "\<forall>(i, x) \<in> set results'. \<exists>out. x = Inr out"
proof -
  let ?P = "\<lambda>(q :: nat list) r (res :: (nat \<times> (string + outcome)) list) (s :: tester).
      mset (map fst res) + mset q + mset (map task_id r) = mset queue
    \<and> (\<forall>(i, x) \<in> set res. \<exists>out. x = Inr out)"
  have init: "?P queue [] [] t" by simp
  have start: "?P q (r @ [Recording i]) res s" if "?P (i # q) r res s" for i q r res s
    using that by simp
  have cont: "?P q (r[k := y]) res s'"
    if p: "?P q r res s" and k: "k < length r" and st: "step att (r ! k) s = (s', Inl y)"
    for q r res s k s' y
  proof -
    have "task_id y = task_id (r ! k)"
      using st by (cases rule: step_Inl) simp_all
    then have "map task_id (r[k := y]) = map task_id r"
      using k by (rule map_task_id_update [rotated])
    with p show ?thesis by simp
  qed
  have fin: "?P q (take k r @ drop (Suc k) r) (res @ [(task_id (r ! k), Inr out)]) s'"
    if p: "?P q r res s" and k: "k < length r" and st: "step att (r ! k) s = (s', Inr out)"
    for q r res s k s' out
  proof -
    define X where "X = mset (map fst res)"
    define M where "M = mset (map task_id r)"
    define M' where "M' = mset (map task_id (take k r @ drop (Suc k) r))"
    define a where "a = task_id (r ! k)"
    have "add_mset ((map task_id r) ! k) (mset (take k (map task_id r) @ drop (Suc k) (map task_id r)))
          = mset (map task_id r)"
      using k by (intro mset_remove_nth) simp
    then have ids: "add_mset a M' = M"
      unfolding a_def M'_def M_def using k by (simp add: take_map drop_map)
    have "X + mset q + M = mset queue"
      using p unfolding X_def M_def by blast
    then have "X + mset q + add_mset a M' = mset queue"
      by (simp only: ids)
    then have "add_mset a X + mset q + M' = mset queue"
      by simp
    moreover have "mset (map fst (res @ [(task_id (r ! k), Inr out)])) = add_mset a X"
      unfolding X_def a_def by simp
    ultimately have "mset (map fst (res @ [(task_id (r ! k), Inr out)])) + mset q
                     + mset (map task_id (take k r @ drop (Suc k) r)) = mset queue"
      unfolding M'_def by (simp only:)
    moreover have "\<forall>(i, x) \<in> set (res @ [(task_id (r ! k), Inr out)]). \<exists>out. x = Inr out"
      using p by auto
    ultimately show ?thesis by blast
  qed
  have "\<exists>q. ?P q [] results' t' \<and> (q = [] \<or> n = 0)"
    using run init start cont fin by (rule pool_run_invariant [where P = ?P])
  then have final: "?P [] [] results' t'"
    using n by auto
  from final show "mset (map fst results') = mset queue" by simp
  from final show "\<forall>(i, x) \<in> set results'. \<exists>out. x = Inr out" by blast
qed

lemma pool_run_futures:
  assumes run: "pool_run att n picks queue [] [] t = (results', t')" and n: "0 < n"
  shows "length (filter future_succeeded results') + length (response_times t)
         = length (response_times t')"
    and "length (filter future_failed results') + length (errors t) = length (errors t')"
proof -
  let ?P = "\<lambda>(q :: nat list) r (res :: (nat \<times> (string + outcome)) list) s.
      length (filter future_succeeded res) + length (filter (\<lambda>x. \<not> is_Recording x) r)
        + length (response_times t) = length (response_times s)
    \<and> length (filter future_failed res) + length (errors t) = length (errors s)"
  have init: "?P queue [] [] t" by simp
  have start: "?P q (r @ [Recording i]) res s" if "?P (i # q) r res s" for i q r res s
    using that by simp
  have cont: "?P q (r[k := y]) res s'"
    if p: "?P q r res s" and k: "k < length r" and st: "step att (r ! k) s = (s', Inl y)"
    for q r res s k s' y
    using st
  proof (cases rule: step_Inl)
    case (appended i c)
    then show ?thesis
      using p length_filter_update [OF k, of "\<lambda>x. \<not> is_Recording x" y] by simp
  next
    case (loaded i)
    then show ?thesis
      using p length_filter_update [OF k, of "\<lambda>x. \<not> is_Recording x" y] by simp
  qed
  have fin: "?P q (take k r @ drop (Suc k) r) (res @ [(task_id (r ! k), Inr out)]) s'"
    if p: "?P q r res s" and k: "k < length r" and st: "step att (r ! k) s = (s', Inr out)"
    for q r res s k s' out
    using st
  proof (cases rule: step_Inr)
    case (failed i e)
    then show ?thesis
      using p length_filter_remove [OF k, of "\<lambda>x. \<not> is_Recording x"] by simp
  next
    case (stored i v)
    then show ?thesis
      using p length_filter_remove [OF k, of "\<lambda>x. \<not> is_Recording x"] by simp
  qed
  have "\<exists>q. ?P q [] results' t' \<and> (q = [] \<or> n = 0)"
    using run init start cont fin by (rule pool_run_invariant [where P = ?P])
  then have final: "?P [] [] results' t'"
    using n by auto
  from final show "length (filter future_succeeded results') + length (response_times t)
         = length (response_times t')" by simp
  from final show "length (filter future_failed results') + length (errors t) = length (errors t')"
    by simp
qed

lemma pool_run_idle: "pool_run att n picks [] [] results t = (results, t)"
  by (subst pool_run_unfold) simp

lemma run_no_requests:
  "run w (LoadTester u nt 0 iv) =
     (if 0 < nt
      then Inr ([Print (Starting u), Print (Settings nt 0 iv), Print Rule, Wait [],
                 Print Rule, Print NoSuccessfulRequests],
                (LoadTester u nt 0 iv)\<lparr>start_time := Some (now_start w),
                                        end_time := Some (now_end w)\<rparr>)
      else Inl ValueError)"
  by (simp add: run_def dispatch_def print_results_def LoadTester_def pool_run_idle)

text \<open>When the dispatch gets to the end of the barrier.\<close>

lemma dispatch_returns_iff:
  "(\<exists>r. dispatch w t = Inr r)
   \<longleftrightarrow> 0 < num_threads t \<and> (num_requests t \<le> 0 \<or> sleep (sleep_limit w) (interval t) = Inr ())"
proof
  assume "\<exists>r. dispatch w t = Inr r"
  then obtain d rs t' where "dispatch w t = Inr (d, rs, t')"
    by (metis prod_cases3)
  from dispatch_Inr(3,4) [OF this]
  show "0 < num_threads t \<and> (num_requests t \<le> 0 \<or> sleep (sleep_limit w) (interval t) = Inr ())"
    by (cases "0 < num_requests t") auto
next
  assume "0 < num_threads t \<and> (num_requests t \<le> 0 \<or> sleep (sleep_limit w) (interval t) = Inr ())"
  then show "\<exists>r. dispatch w t = Inr r"
    using dispatch_returns [of t w] by blast
qed

lemma no_wait_in_iterations: "Wait fs \<notin> set (concat (map (iteration t) ids))"
  by (induction ids) (auto simp: iteration_def)

lemma progress_by_count:
  "map (\<lambda>i. (int i + 1, n)) (filter (\<lambda>i. (int i + 1) mod 10 = 0 \<or> int i + 1 = n) [0..<m])
   = map (\<lambda>k. (int k, n)) (filter (\<lambda>k. k mod 10 = 0 \<or> int k = n) [1..<Suc m])"
proof -
  have a: "(1 + int i) mod 10 = 0 \<longleftrightarrow> Suc i mod 10 = 0" for i
    by presburger
  have b: "[1..<Suc m] = map Suc [0..<m]"
    by (simp add: map_Suc_upt del: upt_Suc)
  show ?thesis
    unfolding b by (simp add: filter_map comp_def a add.commute del: upt_Suc)
qed

lemma dict_incr_set:
  "dict_incr k d = dict_set k (case map_of d k of None \<Rightarrow> 1 | Some c \<Rightarrow> c + 1) d"
  by (induction k d rule: dict_incr.induct) auto




text \<open>
  Cutting \<^verbatim>\<open>send_request\<close> into steps changes nothing when the steps of a
  call follow each other with no other thread in between.
\<close>

lemma steps_send_request:
  "reply (att i) = Response c \<Longrightarrow>
   step att (Recording i) t = (t1, Inl (Loading i)) \<and>
   step att (Loading i) t1 = (t1, Inl (Storing i (map_of (status_codes t1) c))) \<and>
   step att (Storing i (map_of (status_codes t1) c)) t1 = (t2, Inr out)
   \<longleftrightarrow> t1 = t\<lparr>response_times := response_times t @ [t_recv (att i) - t_send (att i)]\<rparr>
       \<and> send_request (att i) i t = Inr (out, t2)"
  by (auto simp: send_request_Response dict_incr_set)

lemma step_send_request_Raised:
  "reply (att i) = Raised e \<Longrightarrow>
   step att (Recording i) t = (t2, Inr out) \<longleftrightarrow> send_request (att i) i t = Inr (out, t2)"
  by (auto simp: send_request_Raised)















lemma pool_run_successes:
  assumes run: "pool_run att n picks queue [] [] t = (results', t')" and n: "0 < n"
  shows "length (response_times t')
         = length (response_times t) + length (filter (\<lambda>i. is_Response (reply (att i))) queue)"
proof -
  let ?A = "\<lambda>x. is_Recording x \<and> is_Response (reply (att (task_id x)))"
  let ?P = "\<lambda>(q :: nat list) r (res :: (nat \<times> (string + outcome)) list) s.
      length (response_times s) + length (filter (\<lambda>i. is_Response (reply (att i))) q)
        + length (filter ?A r)
      = length (response_times t) + length (filter (\<lambda>i. is_Response (reply (att i))) queue)"
  have init: "?P queue [] [] t" by simp
  have start: "?P q (r @ [Recording i]) res s" if "?P (i # q) r res s" for i q r res s
    using that by (cases "is_Response (reply (att i))") simp_all
  have cont: "?P q (r[k := y]) res s'"
    if p: "?P q r res s" and k: "k < length r" and st: "step att (r ! k) s = (s', Inl y)"
    for q r res s k s' y
    using st
  proof (cases rule: step_Inl)
    case (appended i c)
    then show ?thesis
      using p length_filter_update [OF k, of ?A y] by simp
  next
    case (loaded i)
    then show ?thesis
      using p length_filter_update [OF k, of ?A y] by simp
  qed
  have fin: "?P q (take k r @ drop (Suc k) r) (res @ [(task_id (r ! k), Inr out)]) s'"
    if p: "?P q r res s" and k: "k < length r" and st: "step att (r ! k) s = (s', Inr out)"
    for q r res s k s' out
    using st
  proof (cases rule: step_Inr)
    case (failed i e)
    then show ?thesis
      using p length_filter_remove [OF k, of ?A] by simp
  next
    case (stored i v)
    then show ?thesis
      using p length_filter_remove [OF k, of ?A] by simp
  qed
  have "\<exists>q. ?P q [] results' t' \<and> (q = [] \<or> n = 0)"
    using run init start cont fin by (rule pool_run_invariant [where P = ?P])
  then show ?thesis using n by auto
qed



lemma dispatch_successes:
  assumes "dispatch w ((LoadTester u nt nr iv)\<lparr>start_time := st\<rparr>) = Inr (done, results, t')"
  shows "response_times t' \<noteq> [] \<longleftrightarrow> (\<exists>i < nat nr. is_Response (reply (attempts w i)))"
proof -
  let ?t = "(LoadTester u nt nr iv)\<lparr>start_time := st\<rparr>"
  have f: "num_requests ?t = nr" "response_times ?t = []"
    by (simp_all add: LoadTester_def)
  have n: "0 < nat (num_threads ?t)"
    using dispatch_Inr(3) [OF assms] by simp
  have "length (response_times t')
        = length (filter (\<lambda>i. is_Response (reply (attempts w i))) [0..<nat nr])"
    using pool_run_successes [OF dispatch_Inr(2) [OF assms] n] by (simp add: f)
  then have "response_times t' \<noteq> []
             \<longleftrightarrow> filter (\<lambda>i. is_Response (reply (attempts w i))) [0..<nat nr] \<noteq> []"
    by (metis length_0_conv)
  then show ?thesis
    by (auto simp: filter_empty_conv)
qed

text \<open>When a run returns, and what becomes of it when the two timestamps are equal.\<close>

lemma run_returns:
  assumes "0 < nt" and "sleep (sleep_limit w) iv = Inr () \<or> nr \<le> 0"
    and "now_end w \<noteq> now_start w"
  shows "\<exists>out t'. run w (LoadTester u nt nr iv) = Inr (out, t')"
proof -
  let ?t = "(LoadTester u nt nr iv)\<lparr>start_time := Some (now_start w)\<rparr>"
  have "0 < num_threads ?t" "sleep (sleep_limit w) (interval ?t) = Inr () \<or> num_requests ?t \<le> 0"
    using assms(1,2) by (simp_all add: LoadTester_def)
  then obtain r where "dispatch w ?t = Inr r"
    using dispatch_returns by blast
  then obtain d rs t1 where d: "dispatch w ?t = Inr (d, rs, t1)"
    by (cases r) auto
  let ?t2 = "t1\<lparr>end_time := Some (now_end w)\<rparr>"
  obtain a b c where
    "t1 = ?t\<lparr>response_times := a, status_codes := b, errors := c\<rparr>"
    using dispatch_config [OF d] by blast
  then have f: "num_requests ?t2 = nr" "start_time ?t2 = Some (now_start w)"
    "end_time ?t2 = Some (now_end w)"
    by (simp_all add: LoadTester_def)
  have "\<exists>ls. print_results ?t2 = Inr ls"
  proof (cases "response_times ?t2 = []")
    case True
    then show ?thesis by (simp add: print_results_def)
  next
    case False
    then have "response_times t1 \<noteq> []" by simp
    then have "nr \<noteq> 0"
      using dispatch_successes [OF d] by auto
    then show ?thesis
      using print_results_returns [OF f(2) f(3) assms(3)] f(1) by simp
  qed
  then obtain ls where "print_results ?t2 = Inr ls" by blast
  with d show ?thesis
    by (simp add: run_def Let_def)
qed

lemma run_equal_timestamps:
  assumes "0 < nt" and "sleep (sleep_limit w) iv = Inr ()"
    and "i < nat nr" and "is_Response (reply (attempts w i))" and "now_end w = now_start w"
  shows "run w (LoadTester u nt nr iv) = Inl ZeroDivisionError"
proof -
  let ?t = "(LoadTester u nt nr iv)\<lparr>start_time := Some (now_start w)\<rparr>"
  have "0 < num_threads ?t" "sleep (sleep_limit w) (interval ?t) = Inr () \<or> num_requests ?t \<le> 0"
    using assms(1,2) by (simp_all add: LoadTester_def)
  then obtain r where "dispatch w ?t = Inr r"
    using dispatch_returns by blast
  then obtain d rs t1 where d: "dispatch w ?t = Inr (d, rs, t1)"
    by (cases r) auto
  let ?t2 = "t1\<lparr>end_time := Some (now_end w)\<rparr>"
  obtain a b c where
    "t1 = ?t\<lparr>response_times := a, status_codes := b, errors := c\<rparr>"
    using dispatch_config [OF d] by blast
  then have f: "start_time ?t2 = Some (now_start w)" "end_time ?t2 = Some (now_end w)"
    by (simp_all add: LoadTester_def)
  have "response_times ?t2 \<noteq> []"
    using dispatch_successes [OF d] assms(3,4) by auto
  then have "print_results ?t2 = Inl ZeroDivisionError"
    using f assms(5) by (simp add: print_results_def)
  with d show ?thesis
    by (simp add: run_def Let_def)
qed

section \<open>The claims\<close>

text \<open>
  Claim C1. For a request count that is not negative, behind the barrier of the
  dispatch loop the number of recorded response times plus the number of
  recorded errors is the request count, however the threads of the pool take
  their turns. Every submitted task has one future, and the successes and
  failures among the futures are as many as the entries of the two lists.
\<close>

theorem recorded_outcomes_total:
  assumes "0 \<le> nr"
    and "dispatch w ((LoadTester u nt nr iv)\<lparr>start_time := Some (now_start w)\<rparr>)
         = Inr (done, results, t')"
  shows "int (length (response_times t')) + int (length (errors t')) = nr
       \<and> mset (map fst results) = mset [0..<nat nr]
       \<and> length (filter future_succeeded results) = length (response_times t')
       \<and> length (filter future_failed results) = length (errors t')"
proof -
  let ?t = "(LoadTester u nt nr iv)\<lparr>start_time := Some (now_start w)\<rparr>"
  have f: "num_requests ?t = nr" "response_times ?t = []" "errors ?t = []"
    by (simp_all add: LoadTester_def)
  have n: "0 < nat (num_threads ?t)"
    using dispatch_Inr(3) [OF assms(2)] by simp
  note pool = dispatch_Inr(2) [OF assms(2)]
  have "length (response_times t') + length (errors t') = nat nr"
    using pool_run_lengths [OF pool n] by (simp add: f)
  then have "int (length (response_times t')) + int (length (errors t')) = nr"
    using assms(1) by simp
  moreover have "mset (map fst results) = mset [0..<nat nr]"
    using pool_run_ids(1) [OF pool n] by (simp add: f)
  moreover have "length (filter future_succeeded results) = length (response_times t')"
    using pool_run_futures(1) [OF pool n] by (simp add: f)
  moreover have "length (filter future_failed results) = length (errors t')"
    using pool_run_futures(2) [OF pool n] by (simp add: f)
  ultimately show ?thesis by blast
qed

theorem recorded_outcomes_total_witness:
  "\<exists>done results t'.
     dispatch sample_world ((LoadTester ''http://h'' 2 4 (Finite 0))\<lparr>start_time := Some (now_start sample_world)\<rparr>)
       = Inr (done, results, t')
     \<and> int (length (response_times t')) + int (length (errors t')) = 4
     \<and> length (filter future_succeeded results) = 2"
proof -
  have h: "(0::int) \<le> 4" by simp
  have s: "now_start sample_world = 0" by (simp add: sample_world_def)
  obtain d rs t' where
    r: "dispatch sample_world ((LoadTester ''http://h'' 2 4 (Finite 0))\<lparr>start_time := Some (now_start sample_world)\<rparr>)
        = Inr (d, rs, t')"
    and two: "length (response_times t') = 2"
    using sample_dispatch by (simp add: s)
  from recorded_outcomes_total [OF h r] two r show ?thesis by auto
qed

text \<open>
  Claim C3. A request attempt is a success exactly when \<^verbatim>\<open>requests.get\<close>
  returned a response, whatever its status code: \<^verbatim>\<open>send_request\<close> then
  appends the elapsed time and counts the status code. When the call raised,
  \<^verbatim>\<open>send_request\<close> appends the text of the exception to \<^verbatim>\<open>errors\<close>
  and returns a failure. In both cases it returns: no exception leaves it.
\<close>

theorem send_request_classifies:
  "(\<forall>code. reply a = Response code \<longrightarrow>
      send_request a i t =
        Inr (Success i code (t_recv a - t_send a),
             t\<lparr>response_times := response_times t @ [t_recv a - t_send a],
               status_codes := dict_incr code (status_codes t)\<rparr>))
   \<and> (\<forall>msg. reply a = Raised msg \<longrightarrow>
      send_request a i t = Inr (Failure i msg, t\<lparr>errors := errors t @ [msg]\<rparr>))
   \<and> (\<exists>out t'. send_request a i t = Inr (out, t')
          \<and> (is_success out \<longleftrightarrow> is_Response (reply a)))"
proof (cases "reply a")
  case (Response c)
  then show ?thesis by (simp add: send_request_Response)
next
  case (Raised e)
  then show ?thesis by (simp add: send_request_Raised)
qed

theorem send_request_classifies_witness:
  "send_request \<lparr>t_send = 1, t_recv = 3, reply = Response 503\<rparr> 7 (LoadTester ''http://h'' 5 100 (Finite 0))
     = Inr (Success 7 503 2,
            (LoadTester ''http://h'' 5 100 (Finite 0))\<lparr>response_times := [2], status_codes := [(503, 1)]\<rparr>)
   \<and> send_request \<lparr>t_send = 1, t_recv = 3, reply = Raised ''timed out''\<rparr> 7 (LoadTester ''http://h'' 5 100 (Finite 0))
     = Inr (Failure 7 ''timed out'', (LoadTester ''http://h'' 5 100 (Finite 0))\<lparr>errors := [''timed out'']\<rparr>)"
  using send_request_classifies [of "\<lparr>t_send = 1, t_recv = 3, reply = Response 503\<rparr>" 7 "LoadTester ''http://h'' 5 100 (Finite 0)"]
        send_request_classifies [of "\<lparr>t_send = 1, t_recv = 3, reply = Raised ''timed out''\<rparr>" 7 "LoadTester ''http://h'' 5 100 (Finite 0)"]
  by (simp add: LoadTester_def)

text \<open>
  Claim C4. With an empty list of response times \<^verbatim>\<open>print_results\<close> prints
  the one line "No successful requests were made." and returns, whatever the
  timestamps and the request count are, so nothing is divided. A run of zero
  requests on a pool of at least one thread is such a case: it submits nothing,
  waits on no future and prints that line. With a thread count that is not
  positive the pool is not made and the run ends with \<^verbatim>\<open>ValueError\<close> before
  \<^verbatim>\<open>print_results\<close> is called.
\<close>

theorem print_results_nothing_recorded:
  "(response_times t = [] \<longrightarrow> print_results t = Inr [NoSuccessfulRequests])
   \<and> run w (LoadTester u nt 0 iv) =
       (if 0 < nt
        then Inr ([Print (Starting u), Print (Settings nt 0 iv), Print Rule, Wait [],
                   Print Rule, Print NoSuccessfulRequests],
                  (LoadTester u nt 0 iv)\<lparr>start_time := Some (now_start w),
                                          end_time := Some (now_end w)\<rparr>)
        else Inl ValueError)"
  by (simp only: run_no_requests) (simp add: print_results_def)

theorem print_results_nothing_recorded_witness:
  "print_results ((LoadTester ''http://h'' 5 3 (Finite 0))\<lparr>errors := [''e'', ''e'', ''f'']\<rparr>)
     = Inr [NoSuccessfulRequests]
   \<and> run sample_world (LoadTester ''http://h'' 5 0 (Finite 0))
     = Inr ([Print (Starting ''http://h''), Print (Settings 5 0 (Finite 0)), Print Rule, Wait [],
             Print Rule, Print NoSuccessfulRequests],
            (LoadTester ''http://h'' 5 0 (Finite 0))\<lparr>start_time := Some 0,
                                                     end_time := Some 2000000\<rparr>)"
  using print_results_nothing_recorded
          [of "(LoadTester ''http://h'' 5 3 (Finite 0))\<lparr>errors := [''e'', ''e'', ''f'']\<rparr>"
              sample_world "''http://h''" 5 "Finite 0"]
  by (simp add: LoadTester_def sample_world_def)

text \<open>
  Claim C5. In a run that completes with at least one success, the throughput
  printed as "Requests Per Second" is the configured \<^verbatim>\<open>num_requests\<close> divided
  by the duration, and the duration is the end timestamp minus the start
  timestamp in seconds. The divisor of the successes or of the failures plays no
  part. A run completes only if the two timestamps differ.
\<close>

theorem throughput_uses_configured_total:
  assumes "run w (LoadTester u nt nr iv) = Inr (out, t')" and "response_times t' \<noteq> []"
  shows "now_end w \<noteq> now_start w
       \<and> (\<forall>x. TestDuration x \<in> set (printed out)
               \<longleftrightarrow> x = real_of_int (now_end w - now_start w) / 1000000)
       \<and> (\<forall>x. RequestsPerSecond x \<in> set (printed out)
               \<longleftrightarrow> x = real_of_int nr / (real_of_int (now_end w - now_start w) / 1000000))"
proof (intro conjI allI)
  show "now_end w \<noteq> now_start w"
    by (rule run_report(1) [OF assms])
  show "TestDuration x \<in> set (printed out)
          \<longleftrightarrow> x = real_of_int (now_end w - now_start w) / 1000000" for x
    unfolding run_report(3) [OF assms]
    by (auto simp: statistics_lines_def status_line_not_other error_line_not_other)
  show "RequestsPerSecond x \<in> set (printed out)
          \<longleftrightarrow> x = real_of_int nr / (real_of_int (now_end w - now_start w) / 1000000)" for x
    unfolding run_report(3) [OF assms]
    by (auto simp: statistics_lines_def status_line_not_other error_line_not_other)
qed

theorem throughput_uses_configured_total_witness:
  "\<exists>out t'. run sample_world (LoadTester ''http://h'' 2 4 (Finite 0)) = Inr (out, t')
     \<and> length (response_times t') = 2
     \<and> (\<forall>x. RequestsPerSecond x \<in> set (printed out) \<longleftrightarrow> x = 2)"
proof -
  obtain out t' where r: "run sample_world (LoadTester ''http://h'' 2 4 (Finite 0)) = Inr (out, t')"
    and p: "response_times t' = [0, 3 / 4]"
    using sample_run by simp
  have ne: "response_times t' \<noteq> []" using p by simp
  have "\<forall>x. RequestsPerSecond x \<in> set (printed out) \<longleftrightarrow> x = 2"
    using throughput_uses_configured_total [OF r ne] by (simp add: sample_world_def)
  with r p show ?thesis by auto
qed




text \<open>
  Claim C7, as the code has it. In a run that completes with at least one
  success and at least one failure, the error distribution has one row for each
  distinct error message with the number of its occurrences, the rows are in
  descending order of the count, and rows with equal counts are in the order in
  which their messages were first recorded in \<^verbatim>\<open>errors\<close>: the sort has the
  count as its only key and is stable.
\<close>

theorem error_distribution:
  assumes "run w (LoadTester u nt nr iv) = Inr (out, t')"
    and "response_times t' \<noteq> []" and "errors t' \<noteq> []"
  shows "distinct (map fst (error_rows (printed out)))
       \<and> set (map fst (error_rows (printed out))) = set (errors t')
       \<and> (\<forall>(e, k) \<in> set (error_rows (printed out)). k = count_list (errors t') e)
       \<and> sorted (rev (map snd (error_rows (printed out))))
       \<and> (\<forall>k. map fst (filter (\<lambda>r. snd r = k) (error_rows (printed out)))
              = filter (\<lambda>e. count_list (errors t') e = k) (first_occurrences (errors t')))"
proof -
  let ?errs = "errors t'"
  let ?counts = "map (\<lambda>e. (e, count_list ?errs e)) (first_occurrences ?errs)"
  have rows: "error_rows (printed out) = sorted_reverse snd ?counts"
    using error_rows_run [OF assms(1,2)] by (simp add: error_counts_closed)
  have m: "mset (error_rows (printed out)) = mset ?counts"
    unfolding rows by (rule mset_sorted_reverse)
  have k0: "map fst ?counts = first_occurrences ?errs"
    by (simp add: comp_def)
  have "mset (map fst (error_rows (printed out))) = mset (map fst ?counts)"
    using m by (metis mset_map)
  then have keys: "mset (map fst (error_rows (printed out))) = mset (first_occurrences ?errs)"
    unfolding k0 .
  have "distinct (map fst (error_rows (printed out)))"
    using keys distinct_first_occurrences [of ?errs] by (metis mset_eq_imp_distinct_iff)
  moreover have "set (map fst (error_rows (printed out))) = set ?errs"
    using mset_eq_setD [OF keys] by (simp add: set_first_occurrences)
  moreover have "\<forall>(e, k) \<in> set (error_rows (printed out)). k = count_list ?errs e"
    using mset_eq_setD [OF m] by auto
  moreover have "sorted (rev (map snd (error_rows (printed out))))"
    unfolding rows by (rule sorted_reverse_descending)
  moreover have "map fst (filter (\<lambda>r. snd r = k) (error_rows (printed out)))
              = filter (\<lambda>e. count_list ?errs e = k) (first_occurrences ?errs)" for k
    unfolding rows sorted_reverse_stable by (simp add: filter_map comp_def)
  ultimately show ?thesis by blast
qed

theorem error_distribution_witness:
  "\<exists>out t'. run tie_world (LoadTester ''http://h'' 1 3 (Finite 0)) = Inr (out, t')
     \<and> response_times t' = [1 / 2] \<and> errors t' = [''timeout'', ''refused'']
     \<and> error_rows (printed out) = [(''timeout'', 1), (''refused'', 1)]
     \<and> map fst (filter (\<lambda>r. snd r = 1) (error_rows (printed out)))
         = filter (\<lambda>e. count_list (errors t') e = 1) (first_occurrences (errors t'))"
proof -
  obtain out t' where r: "run tie_world (LoadTester ''http://h'' 1 3 (Finite 0)) = Inr (out, t')"
    and p: "response_times t' = [1 / 2]" and e: "errors t' = [''timeout'', ''refused'']"
    and rows: "error_rows (printed out) = [(''timeout'', 1), (''refused'', 1)]"
    using tie_run by simp
  have ne: "response_times t' \<noteq> []" "errors t' \<noteq> []" using p e by simp_all
  from error_distribution [OF r ne]
  have "map fst (filter (\<lambda>r. snd r = 1) (error_rows (printed out)))
         = filter (\<lambda>e. count_list (errors t') e = 1) (first_occurrences (errors t'))"
    by blast
  with r p e rows show ?thesis by blast
qed

theorem error_ties_lexical_counterexample:
  "run tie_world (LoadTester ''http://h'' 1 3 (Finite 0))
   = Inr ([Print (Starting ''http://h''), Print (Settings 1 3 (Finite 0)), Print Rule,
           Submit 0, Sleep (Finite 0), Submit 1, Sleep (Finite 0), Submit 2, Sleep (Finite 0), Progress 3 3, Wait [0, 1, 2],
           Print Rule, Print ResultsHeader, Print (TestDuration 1), Print (RequestsPerSecond 3),
           Print (TotalRequests 3), Print (SuccessfulRequests 1), Print (FailedRequests 2),
           Print StatisticsHeader, Print (MinLine (1 / 2)), Print (MaxLine (1 / 2)),
           Print (MeanLine (1 / 2)), Print (MedianLine (1 / 2)),
           Print StatusHeader, Print (StatusLine 200 1 (100 / 3)),
           Print (ErrorHeader 2), Print (ErrorLine ''timeout'' 1), Print (ErrorLine ''refused'' 1)],
          \<lparr>url = ''http://h'', num_threads = 1, num_requests = 3, interval = Finite 0,
           response_times = [1 / 2], status_codes = [(200, 1)],
           errors = [''timeout'', ''refused''], start_time = Some 0, end_time = Some 1000000\<rparr>)
   \<and> ''refused'' < ''timeout''"
  using tie_run by simp

text \<open>
  Claim C8. The dispatch loop submits one task for each request id from 0 to
  \<^verbatim>\<open>num_requests - 1\<close>, in ascending order; every submission is followed at
  once by a sleep of \<^verbatim>\<open>interval\<close> seconds; a progress line is written after
  the submissions whose number is a multiple of ten and after the last one, and
  shows the number of submissions made so far and the total; the loop ends with
  the barrier on all the futures, and behind the barrier every submitted task has
  returned, however the threads of the pool take their turns.
\<close>

theorem dispatch_loop_behaviour:
  assumes "dispatch w t = Inr (done, results, t')"
  shows "submitted done = [0..<nat (num_requests t)]
       \<and> paced (interval t) done
       \<and> progress_shown done
           = map (\<lambda>k. (int k, num_requests t))
               (filter (\<lambda>k. k mod 10 = 0 \<or> int k = num_requests t) [1..<Suc (nat (num_requests t))])
       \<and> progress_exact 0 done
       \<and> (\<exists>loop. done = loop @ [Wait [0..<nat (num_requests t)]] \<and> (\<forall>fs. Wait fs \<notin> set loop))
       \<and> mset (map fst results) = mset (submitted done)
       \<and> (\<forall>(i, r) \<in> set results. \<exists>out. r = Inr out)"
proof -
  let ?n = "nat (num_requests t)"
  let ?loop = "concat (map (iteration t) [0..<?n])"
  have dn: "done = ?loop @ [Wait [0..<?n]]"
    by (rule dispatch_Inr(1) [OF assms])
  have n: "0 < nat (num_threads t)"
    using dispatch_Inr(3) [OF assms] by simp
  note pool = dispatch_Inr(2) [OF assms]
  have sub: "submitted done = [0..<?n]"
    by (simp add: dn submitted_append submitted_iterations)
  moreover have "paced (interval t) done"
    unfolding dn by (rule paced_iterations) simp
  moreover have "progress_shown done
        = map (\<lambda>k. (int k, num_requests t))
            (filter (\<lambda>k. k mod 10 = 0 \<or> int k = num_requests t) [1..<Suc ?n])"
    by (simp add: dn progress_shown_append progress_iterations progress_by_count)
  moreover have "progress_exact 0 done"
    unfolding dn by (simp add: progress_exact_iterations)
  moreover have "\<exists>loop. done = loop @ [Wait [0..<?n]] \<and> (\<forall>fs. Wait fs \<notin> set loop)"
    using dn no_wait_in_iterations by blast
  moreover have "mset (map fst results) = mset (submitted done)"
    using pool_run_ids(1) [OF pool n] by (simp add: sub)
  moreover have "\<forall>(i, r) \<in> set results. \<exists>out. r = Inr out"
    by (rule pool_run_ids(2) [OF pool n])
  ultimately show ?thesis by blast
qed

theorem dispatch_loop_behaviour_witness:
  "\<exists>done results t'.
     dispatch sample_world ((LoadTester ''http://h'' 2 4 (Finite 0))\<lparr>start_time := Some 0\<rparr>)
       = Inr (done, results, t')
     \<and> submitted done = [0, 1, 2, 3]
     \<and> paced (Finite 0) done
     \<and> progress_shown done = [(4, 4)]
     \<and> progress_exact 0 done
     \<and> mset (map fst results) = mset [0, 1, 2, 3]"
proof -
  let ?t = "(LoadTester ''http://h'' 2 4 (Finite 0))\<lparr>start_time := Some 0\<rparr>"
  have n: "num_requests ?t = 4" "interval ?t = Finite 0"
    by (simp_all add: LoadTester_def)
  obtain d rs t' where d: "dispatch sample_world ?t = Inr (d, rs, t')"
    using sample_dispatch by simp
  have u: "[0..<nat 4] = [0, 1, 2, 3]" "[1..<Suc (nat 4)] = [1, 2, 3, 4]"
    by (simp_all add: upt_rec)
  from dispatch_loop_behaviour [OF d] have
    "submitted d = [0..<nat 4]" "paced (Finite 0) d"
    "progress_shown d = map (\<lambda>k. (int k, 4)) (filter (\<lambda>k. k mod 10 = 0 \<or> int k = 4) [1..<Suc (nat 4)])"
    "progress_exact 0 d" "mset (map fst rs) = mset (submitted d)"
    unfolding n by blast+
  then show ?thesis
    using d unfolding u by auto
qed

text \<open>
  Claim C9. In a run that completes with at least one success, the report has
  the minimum, the maximum, the arithmetic mean and the median of the recorded
  response times, and it has a line for the sample standard deviation exactly
  when two or more response times were recorded.
\<close>

theorem statistics_printed:
  assumes "run w (LoadTester u nt nr iv) = Inr (out, t')" and "response_times t' \<noteq> []"
  shows "(\<forall>x. MinLine x \<in> set (printed out) \<longleftrightarrow> x = Min (set (response_times t')))
       \<and> (\<forall>x. MaxLine x \<in> set (printed out) \<longleftrightarrow> x = Max (set (response_times t')))
       \<and> (\<forall>x. MeanLine x \<in> set (printed out)
               \<longleftrightarrow> x = sum_list (response_times t') / real (length (response_times t')))
       \<and> (\<forall>x. MedianLine x \<in> set (printed out) \<longleftrightarrow> x = median (response_times t'))
       \<and> ((\<exists>x. StdDevLine x \<in> set (printed out)) \<longleftrightarrow> 2 \<le> length (response_times t'))
       \<and> (\<forall>x. StdDevLine x \<in> set (printed out) \<longrightarrow> x = stdev (response_times t'))"
proof (intro conjI allI)
  note rep = run_report(3) [OF assms]
  note others = status_line_not_other error_line_not_other
  show "MinLine x \<in> set (printed out) \<longleftrightarrow> x = Min (set (response_times t'))" for x
    unfolding rep using assms(2) by (auto simp: statistics_lines_def others py_min_Min)
  show "MaxLine x \<in> set (printed out) \<longleftrightarrow> x = Max (set (response_times t'))" for x
    unfolding rep using assms(2) by (auto simp: statistics_lines_def others py_max_Max)
  show "MeanLine x \<in> set (printed out)
          \<longleftrightarrow> x = sum_list (response_times t') / real (length (response_times t'))" for x
    unfolding rep using assms(2) by (auto simp: statistics_lines_def others mean_def)
  show "MedianLine x \<in> set (printed out) \<longleftrightarrow> x = median (response_times t')" for x
    unfolding rep using assms(2) by (auto simp: statistics_lines_def others)
  show "(\<exists>x. StdDevLine x \<in> set (printed out)) \<longleftrightarrow> 2 \<le> length (response_times t')"
    unfolding rep using assms(2) by (auto simp: statistics_lines_def others)
  show "StdDevLine x \<in> set (printed out) \<longrightarrow> x = stdev (response_times t')" for x
    unfolding rep using assms(2) by (auto simp: statistics_lines_def others)
qed

theorem statistics_printed_witness:
  "\<exists>out t'. run sample_world (LoadTester ''http://h'' 2 4 (Finite 0)) = Inr (out, t')
     \<and> response_times t' = [0, 3 / 4]
     \<and> (\<forall>x. MinLine x \<in> set (printed out) \<longleftrightarrow> x = 0)
     \<and> (\<forall>x. MaxLine x \<in> set (printed out) \<longleftrightarrow> x = 3 / 4)
     \<and> (\<forall>x. MeanLine x \<in> set (printed out) \<longleftrightarrow> x = 3 / 8)
     \<and> (\<forall>x. MedianLine x \<in> set (printed out) \<longleftrightarrow> x = 3 / 8)
     \<and> (\<exists>x. StdDevLine x \<in> set (printed out))"
proof -
  obtain out t' where r: "run sample_world (LoadTester ''http://h'' 2 4 (Finite 0)) = Inr (out, t')"
    and p: "response_times t' = [0, 3 / 4]"
    using sample_run by simp
  have ne: "response_times t' \<noteq> []" using p by simp
  have m: "median [0, 3 / 4] = 3 / 8"
    by (simp add: median_def)
  from statistics_printed [OF r ne] r p show ?thesis
    by (simp add: m)
qed




end
